theory Spec2Isabelle
  imports Main
begin

section \<open>Strings as the service handles them\<close>

text \<open>
  The service's strings are modelled as \<^typ>\<open>string\<close>, one \<^typ>\<open>char\<close> per
  code unit below 256. \<open>toLowerCase\<close> is JavaScript's on that range (A-Z and the Latin-1
  capitals), \<open>trim\<close> removes JavaScript's white space of that range from both ends.
\<close>

definition lower_char :: "char \<Rightarrow> char" where
  "lower_char c =
     (let n = (of_char c :: nat)
      in if (65 \<le> n \<and> n \<le> 90) \<or> (192 \<le> n \<and> n \<le> 222 \<and> n \<noteq> 215)
         then char_of (n + 32) else c)"

definition toLowerCase :: "string \<Rightarrow> string" where
  "toLowerCase s = map lower_char s"

definition is_space :: "char \<Rightarrow> bool" where
  "is_space c = ((of_char c :: nat) \<in> {9, 10, 11, 12, 13, 32, 160})"

definition trim :: "string \<Rightarrow> string" where
  "trim s = rev (dropWhile is_space (rev (dropWhile is_space s)))"

text \<open>\<open>s.includes(sub)\<close>: \<open>sub\<close> occurs in \<open>s\<close> as a contiguous run.\<close>

fun includes_str :: "string \<Rightarrow> string \<Rightarrow> bool" where
  "includes_str [] sub = (sub = [])"
| "includes_str (c # cs) sub = (take (length sub) (c # cs) = sub \<or> includes_str cs sub)"

text \<open>\<open>isValidEvmAddress\<close>: the regular expression \<open>/^0x[a-fA-F0-9]{40}$/\<close>.\<close>

definition is_hex_digit :: "char \<Rightarrow> bool" where
  "is_hex_digit c =
     (let n = (of_char c :: nat)
      in (48 \<le> n \<and> n \<le> 57) \<or> (65 \<le> n \<and> n \<le> 70) \<or> (97 \<le> n \<and> n \<le> 102))"

definition isValidEvmAddress :: "string \<Rightarrow> bool" where
  "isValidEvmAddress addr =
     (case addr of
        c0 # c1 # digits \<Rightarrow>
          c0 = CHR ''0'' \<and> c1 = CHR ''x'' \<and> length digits = 40 \<and> list_all is_hex_digit digits
      | _ \<Rightarrow> False)"


section \<open>The explorer as the locator sees it\<close>

text \<open>
  A JavaScript number that may be \<open>NaN\<close> (the time of an unparsable date); every
  comparison with \<open>NaN\<close> is false.
\<close>

datatype jsnum = NaN | Num int

fun js_ge :: "jsnum \<Rightarrow> int \<Rightarrow> bool" where
  "js_ge (Num v) b = (b \<le> v)"
| "js_ge NaN b = False"

fun js_lt :: "jsnum \<Rightarrow> int \<Rightarrow> bool" where
  "js_lt (Num v) b = (v < b)"
| "js_lt NaN b = False"

text \<open>\<open>Math.floor(ms / 1000)\<close>.\<close>

fun floor_seconds :: "jsnum \<Rightarrow> jsnum" where
  "floor_seconds (Num ms) = Num (ms div 1000)"
| "floor_seconds NaN = NaN"

text \<open>
  A transaction node of a GraphQL page. \<open>block_timestamp\<close> is \<open>node.block.timestamp\<close>,
  \<open>None\<close> when the block or its timestamp is absent (always so in a page of the fallback
  query, which does not ask for it).
\<close>

record tx_node =
  tx_hash :: string
  fromAddressHash :: "string option"
  toAddressHash :: "string option"
  tx_value :: string
  tx_status :: string
  block_timestamp :: "string option"
  blockNumber :: "int option"

record page_info =
  hasNextPage :: bool
  endCursor :: "string option"

text \<open>An edge is its node, \<open>None\<close> for a null edge or node.\<close>

record tx_page =
  edges :: "tx_node option list"
  pageInfo :: "page_info option"

text \<open>
  The body of an HTTP 2xx answer: the messages of \<open>errors\<close> (\<open>None\<close> for an error without
  a message; the empty list when the field is absent or empty), \<open>data.address.transactions\<close>
  when its \<open>edges\<close> are present, and \<open>data.block.timestamp\<close>.
\<close>

record gql_body =
  errors :: "string option list"
  transactions :: "tx_page option"
  block_ts :: "string option"

text \<open>
  \<open>axios.post\<close> either resolves with a body or throws; a thrown error carries the HTTP
  status of the answer when there was one (\<open>error.response?.status\<close>).
\<close>

datatype response = HttpError "nat option" | HttpOk gql_body

text \<open>The three queries, with their variables (\<open>userAddress\<close>, \<open>afterCursor\<close>; \<open>blockNumber\<close>).\<close>

datatype request =
    PrimaryQuery string "string option"
  | FallbackQuery string "string option"
  | BlockTimestampQuery int

text \<open>
  What the locator reads from outside: the explorer's answer to the \<open>k\<close>-th request the
  locator sends, and the runtime's \<open>new Date(s).getTime()\<close> in milliseconds.
\<close>

record explorer_env =
  explorer :: "nat \<Rightarrow> request \<Rightarrow> response"
  parseDate :: "string \<Rightarrow> jsnum"

text \<open>
  The locator's trace: the requests sent so far, in order, and the transactions whose
  criteria were evaluated (the \<open>Criteria check\<close> log line), each with its resolved
  timestamp in seconds.
\<close>

record net_state =
  requests :: "request list"
  checked :: "(tx_node \<times> jsnum) list"

definition post :: "explorer_env \<Rightarrow> request \<Rightarrow> net_state \<Rightarrow> response \<times> net_state" where
  "post env q st = (explorer env (length (requests st)) q, st\<lparr>requests := requests st @ [q]\<rparr>)"

definition MAX_API_CALL_ATTEMPTS :: nat where
  "MAX_API_CALL_ATTEMPTS = 5"

text \<open>\<open>errors.some(err => err.message?.toLowerCase().includes("internal server error"))\<close>\<close>

definition isInternalError :: "string option list \<Rightarrow> bool" where
  "isInternalError errs =
     list_ex (\<lambda>m. case m of None \<Rightarrow> False
                   | Some msg \<Rightarrow> includes_str (toLowerCase msg) ''internal server error'') errs"

text \<open>JavaScript truthiness of an optional string.\<close>

fun truthy :: "string option \<Rightarrow> bool" where
  "truthy None = False"
| "truthy (Some s) = (s \<noteq> [])"


section \<open>The block timestamp query\<close>

text \<open>
  \<open>getTimestampForBlockGraphQL\<close>: the loop runs while \<open>currentAttempt\<close> is below the
  ceiling; the back-off delays between attempts change no result and are left out.
\<close>

function getTimestampForBlockGraphQL ::
  "explorer_env \<Rightarrow> int \<Rightarrow> nat \<Rightarrow> net_state \<Rightarrow> jsnum option \<times> net_state" where
  "getTimestampForBlockGraphQL env bn currentAttempt st =
     (if currentAttempt < MAX_API_CALL_ATTEMPTS then
        (let a = currentAttempt + 1;
             (resp, st1) = post env (BlockTimestampQuery bn) st
         in case resp of
              HttpOk body \<Rightarrow>
                if errors body \<noteq> [] then
                  (if isInternalError (errors body) \<and> a \<ge> MAX_API_CALL_ATTEMPTS
                   then (None, st1)
                   else getTimestampForBlockGraphQL env bn a st1)
                else (case block_ts body of
                        Some timestampStr \<Rightarrow>
                          if timestampStr \<noteq> [] then
                            (Some (floor_seconds (parseDate env timestampStr)), st1)
                          else getTimestampForBlockGraphQL env bn a st1
                      | None \<Rightarrow> getTimestampForBlockGraphQL env bn a st1)
            | HttpError status \<Rightarrow>
                if status = Some 500 \<and> a \<ge> MAX_API_CALL_ATTEMPTS
                then (None, st1)
                else getTimestampForBlockGraphQL env bn a st1)
      else (None, st))"
  by pat_completeness auto
termination
  by (relation "measure (\<lambda>(env, bn, a, st). MAX_API_CALL_ATTEMPTS - a)") auto

declare getTimestampForBlockGraphQL.simps [simp del]


section \<open>Fetching one page\<close>

datatype primary_outcome = PrimaryData tx_page | PrimaryTriggersFallback | PrimaryExhausted

text \<open>
  The loop of the primary query (\<open>currentApiCallAttemptPrimary\<close>). It leaves with the
  page, or with \<open>useFallbackQuery\<close> set (an \<open>errors\<close> body naming an internal server error,
  or a thrown error of HTTP status 500), or with its attempts used up.
\<close>

function primaryAttempts ::
  "explorer_env \<Rightarrow> string \<Rightarrow> string option \<Rightarrow> nat \<Rightarrow> net_state \<Rightarrow> primary_outcome \<times> net_state" where
  "primaryAttempts env user cursor attempt st =
     (if attempt < MAX_API_CALL_ATTEMPTS then
        (let a = attempt + 1;
             (resp, st1) = post env (PrimaryQuery user cursor) st
         in case resp of
              HttpOk body \<Rightarrow>
                if errors body \<noteq> [] then
                  (if isInternalError (errors body) then (PrimaryTriggersFallback, st1)
                   else primaryAttempts env user cursor a st1)
                else (case transactions body of
                        Some pg \<Rightarrow> (PrimaryData pg, st1)
                      | None \<Rightarrow> primaryAttempts env user cursor a st1)
            | HttpError status \<Rightarrow>
                if status = Some 500 then (PrimaryTriggersFallback, st1)
                else primaryAttempts env user cursor a st1)
      else (PrimaryExhausted, st))"
  by pat_completeness auto
termination
  by (relation "measure (\<lambda>(env, user, cursor, a, st). MAX_API_CALL_ATTEMPTS - a)") auto

declare primaryAttempts.simps [simp del]

text \<open>The loop of the fallback query (\<open>currentApiCallAttemptFallback\<close>).\<close>

function fallbackAttempts ::
  "explorer_env \<Rightarrow> string \<Rightarrow> string option \<Rightarrow> nat \<Rightarrow> net_state \<Rightarrow> tx_page option \<times> net_state" where
  "fallbackAttempts env user cursor attempt st =
     (if attempt < MAX_API_CALL_ATTEMPTS then
        (let a = attempt + 1;
             (resp, st1) = post env (FallbackQuery user cursor) st
         in case resp of
              HttpOk body \<Rightarrow>
                if errors body \<noteq> [] then fallbackAttempts env user cursor a st1
                else (case transactions body of
                        Some pg \<Rightarrow> (Some pg, st1)
                      | None \<Rightarrow> fallbackAttempts env user cursor a st1)
            | HttpError status \<Rightarrow> fallbackAttempts env user cursor a st1)
      else (None, st))"
  by pat_completeness auto
termination
  by (relation "measure (\<lambda>(env, user, cursor, a, st). MAX_API_CALL_ATTEMPTS - a)") auto

declare fallbackAttempts.simps [simp del]

text \<open>
  One iteration's fetch: the page and \<open>useFallbackQuery\<close>, or the failure on which
  \<open>findProofTransactionGraphQL\<close> returns null.
\<close>

datatype page_fetch = PageFetched bool tx_page | PageFailed

definition fetchPage ::
  "explorer_env \<Rightarrow> string \<Rightarrow> string option \<Rightarrow> net_state \<Rightarrow> page_fetch \<times> net_state" where
  "fetchPage env user cursor st =
     (case primaryAttempts env user cursor 0 st of
        (PrimaryData pg, st1) \<Rightarrow> (PageFetched False pg, st1)
      | (PrimaryExhausted, st1) \<Rightarrow> (PageFailed, st1)
      | (PrimaryTriggersFallback, st1) \<Rightarrow>
          (case fallbackAttempts env user cursor 0 st1 of
             (Some pg, st2) \<Rightarrow> (PageFetched True pg, st2)
           | (None, st2) \<Rightarrow> (PageFailed, st2)))"


section \<open>Scanning a page\<close>

text \<open>
  The timestamp of a transaction, in seconds, or \<open>None\<close> when the loop skips the
  transaction: on the fallback path a missing block number or a failed timestamp query,
  on the primary path a missing \<open>block.timestamp\<close>.
\<close>

definition resolveTimestamp ::
  "explorer_env \<Rightarrow> bool \<Rightarrow> tx_node \<Rightarrow> net_state \<Rightarrow> jsnum option \<times> net_state" where
  "resolveTimestamp env useFallbackQuery txNode st =
     (if useFallbackQuery then
        (case blockNumber txNode of
           None \<Rightarrow> (None, st)
         | Some bn \<Rightarrow> getTimestampForBlockGraphQL env bn 0 st)
      else
        (case block_timestamp txNode of
           None \<Rightarrow> (None, st)
         | Some ts \<Rightarrow> if ts = [] then (None, st)
                     else (Some (floor_seconds (parseDate env ts)), st)))"

text \<open>
  The criteria of the source: \<open>isFromCorrect && isToCorrect && isStatusOk &&
  isAfterTimestamp && isBeforeDeadline\<close>, on the lower-cased wallets. The value of the
  transaction is not looked at.
\<close>

definition matchesCriteria ::
  "string \<Rightarrow> string \<Rightarrow> int \<Rightarrow> int \<Rightarrow> tx_node \<Rightarrow> jsnum \<Rightarrow> bool" where
  "matchesCriteria userWalletLower targetWalletLower afterTimestamp deadlineTimestamp txNode ts =
     (let toAddressLower = map_option toLowerCase (toAddressHash txNode);
          fromAddressLower = map_option toLowerCase (fromAddressHash txNode);
          isToCorrect = (toAddressLower = Some targetWalletLower);
          isFromCorrect = (fromAddressLower = Some userWalletLower);
          isStatusOk = (tx_status txNode = ''OK'');
          isAfterTimestamp = js_ge ts afterTimestamp;
          isBeforeDeadline = js_lt ts deadlineTimestamp
      in isFromCorrect \<and> isToCorrect \<and> isStatusOk \<and> isAfterTimestamp \<and> isBeforeDeadline)"

record ProofTransaction =
  pt_hash :: string
  pt_from :: "string option"
  pt_to :: "string option"
  pt_blockNumber :: "int option"
  pt_timestamp :: jsnum

text \<open>The loop over the edges of one page, in page order; it stops at the first match.\<close>

fun scanEdges ::
  "explorer_env \<Rightarrow> bool \<Rightarrow> string \<Rightarrow> string \<Rightarrow> int \<Rightarrow> int \<Rightarrow> tx_node option list
     \<Rightarrow> net_state \<Rightarrow> ProofTransaction option \<times> net_state" where
  "scanEdges env fb user target after deadline [] st = (None, st)"
| "scanEdges env fb user target after deadline (edge # rest) st =
     (case edge of
        None \<Rightarrow> scanEdges env fb user target after deadline rest st
      | Some txNode \<Rightarrow>
          (case resolveTimestamp env fb txNode st of
             (None, st1) \<Rightarrow> scanEdges env fb user target after deadline rest st1
           | (Some ts, st1) \<Rightarrow>
               (let st2 = st1\<lparr>checked := checked st1 @ [(txNode, ts)]\<rparr>
                in if matchesCriteria user target after deadline txNode ts
                   then (Some \<lparr>pt_hash = tx_hash txNode, pt_from = fromAddressHash txNode,
                                pt_to = toAddressHash txNode, pt_blockNumber = blockNumber txNode,
                                pt_timestamp = ts\<rparr>, st2)
                   else scanEdges env fb user target after deadline rest st2)))"


section \<open>Pagination\<close>

text \<open>
  The cursor of the next iteration, \<open>None\<close> when the loop ends: the page must report a
  next page and a non-empty cursor, and on the primary path the last transaction of the
  page, when it carries a timestamp, must not be older than \<open>afterTimestamp\<close>.
\<close>

definition nextCursorAfter ::
  "explorer_env \<Rightarrow> bool \<Rightarrow> int \<Rightarrow> tx_page \<Rightarrow> string option" where
  "nextCursorAfter env useFallbackQuery afterTimestamp pg =
     (case pageInfo pg of
        None \<Rightarrow> None
      | Some info \<Rightarrow>
          if hasNextPage info \<and> truthy (endCursor info) then
            (if \<not> useFallbackQuery \<and> edges pg \<noteq> [] then
               (case last (edges pg) of
                  None \<Rightarrow> endCursor info
                | Some lastTxNodeOnPage \<Rightarrow>
                    (case block_timestamp lastTxNodeOnPage of
                       None \<Rightarrow> endCursor info
                     | Some ts \<Rightarrow>
                         if ts = [] then endCursor info
                         else if js_lt (floor_seconds (parseDate env ts)) afterTimestamp
                              then None else endCursor info))
             else endCursor info)
          else None)"

text \<open>
  The \<open>do ... while (nextCursor && !proofFound)\<close> loop. Nothing bounds the number of
  pages, so the loop is a partial function: \<open>None\<close> is a search that never returns,
  \<open>Some (None, st)\<close> one that returns null.
\<close>

partial_function (option) pageLoop ::
  "explorer_env \<Rightarrow> string \<Rightarrow> string \<Rightarrow> int \<Rightarrow> int \<Rightarrow> string option \<Rightarrow> net_state
     \<Rightarrow> (ProofTransaction option \<times> net_state) option" where
  "pageLoop env user target after deadline nextCursor st =
     (case fetchPage env user nextCursor st of
        (PageFailed, st1) \<Rightarrow> Some (None, st1)
      | (PageFetched useFallbackQuery pg, st1) \<Rightarrow>
          (case scanEdges env useFallbackQuery user target after deadline (edges pg) st1 of
             (Some found, st2) \<Rightarrow> Some (Some found, st2)
           | (None, st2) \<Rightarrow>
               (case nextCursorAfter env useFallbackQuery after pg of
                  None \<Rightarrow> Some (None, st2)
                | Some c \<Rightarrow> pageLoop env user target after deadline (Some c) st2)))"

declare pageLoop.simps [code]

definition findProofTransactionGraphQL ::
  "explorer_env \<Rightarrow> string \<Rightarrow> string \<Rightarrow> int \<Rightarrow> int \<Rightarrow> net_state
     \<Rightarrow> (ProofTransaction option \<times> net_state) option" where
  "findProofTransactionGraphQL env userWallet targetWallet afterTimestamp deadlineTimestamp st =
     pageLoop env (toLowerCase userWallet) (toLowerCase targetWallet)
       afterTimestamp deadlineTimestamp None st"


section \<open>The ownership check\<close>

record ProofResult =
  isProofConfirmed :: bool
  txHash :: "string option"
  error :: "string option"

text \<open>
  \<open>checkOwnershipAfter\<close>. The user wallet is the trimmed, lower-cased \<open>walletHash\<close>.
  No operation of the modelled search raises, so the handler of the source's
  \<open>try\<close> has no branch here.
\<close>

definition checkOwnershipAfter ::
  "explorer_env \<Rightarrow> string \<Rightarrow> int \<Rightarrow> int \<Rightarrow> string \<Rightarrow> net_state
     \<Rightarrow> (ProofResult \<times> net_state) option" where
  "checkOwnershipAfter env walletHash afterTimestamp deadlineTimestamp targetWalletAddress st =
     (let userWallet = toLowerCase (trim walletHash)
      in if targetWalletAddress = [] then
           Some (\<lparr>isProofConfirmed = False, txHash = None,
                   error = Some ''targetWalletAddress is not defined''\<rparr>, st)
         else if \<not> isValidEvmAddress userWallet then
           Some (\<lparr>isProofConfirmed = False, txHash = None,
                   error = Some ''Invalid user EVM address''\<rparr>, st)
         else if \<not> isValidEvmAddress targetWalletAddress then
           Some (\<lparr>isProofConfirmed = False, txHash = None,
                   error = Some ''Invalid target wallet address''\<rparr>, st)
         else if afterTimestamp \<ge> deadlineTimestamp then
           Some (\<lparr>isProofConfirmed = False, txHash = None,
                   error = Some ''Invalid time window''\<rparr>, st)
         else
           (case findProofTransactionGraphQL env userWallet targetWalletAddress
                   afterTimestamp deadlineTimestamp st of
              None \<Rightarrow> None
            | Some (Some proofTxNode, st1) \<Rightarrow>
                Some (\<lparr>isProofConfirmed = True, txHash = Some (pt_hash proofTxNode),
                        error = None\<rparr>, st1)
            | Some (None, st1) \<Rightarrow>
                Some (\<lparr>isProofConfirmed = False, txHash = None,
                        error = Some ''Proof transaction not found via GraphQL''\<rparr>, st1)))"


section \<open>Proof tasks and wallet links\<close>

text \<open>The values of \<open>proof_tasks.status\<close> that the schema lists.\<close>

datatype status = Pending | Processing | Success | Failed_no_tx | Expired | Error | Cancelled

text \<open>A row of \<open>proof_tasks\<close>; \<open>created_at\<close> and \<open>updated_at\<close> as seconds.\<close>

record ProofTask =
  task_uid :: string
  telegram_id :: string
  wallet_address_encrypted :: string
  after_timestamp :: int
  check_deadline_utc :: int
  status :: status
  attempts :: int
  created_at :: int
  updated_at :: int
  found_tx_hash :: "string option"
  error_message :: "string option"
  last_checked_block :: "int option"

text \<open>A row of \<open>wallets\<close>, and what \<open>getWallet\<close> returns of it.\<close>

record wallet_row =
  telegram_id_hash :: string
  raw_telegram_id :: "string option"
  wallet_hash :: string
  wallet_encrypted :: string
  row_proofed :: bool

record wallet_link =
  wallet :: string
  proofed :: bool

text \<open>The optional \<open>details\<close> of \<open>updateProofTaskStatus\<close>; \<open>None\<close> is an undefined field.\<close>

record details =
  foundTxHash :: "string option"
  errorMessage :: "string option"
  lastCheckedBlock :: "int option"

definition no_details :: details where
  "no_details = \<lparr>foundTxHash = None, errorMessage = None, lastCheckedBlock = None\<rparr>"

definition with_error :: "string \<Rightarrow> details" where
  "with_error msg = \<lparr>foundTxHash = None, errorMessage = Some msg, lastCheckedBlock = None\<rparr>"

text \<open>The statements the service runs on the database.\<close>

datatype db_stmt =
    SelectStuckAndExpired int
  | SelectProcessable int nat
  | UpdateStatus string status details
  | UpdateAttempts string int
  | SelectWallet string
  | UpsertWallet string string bool

text \<open>
  What the scheduler reads from outside: the explorer, the clock (the value of
  \<open>Math.floor(Date.now() / 1000)\<close> at the \<open>k\<close>-th reading), the database's
  \<open>CURRENT_TIMESTAMP\<close> at its \<open>k\<close>-th statement, whether that statement raises (and
  with which message), the configured challenge wallet, and the crypto collaborators.
\<close>

record sched_env =
  chain :: explorer_env
  clock :: "nat \<Rightarrow> int"
  db_now :: "nat \<Rightarrow> int"
  db_fault :: "nat \<Rightarrow> string option"
  CHECK_WALLET :: "string option"
  decryptWallet :: "string \<Rightarrow> string"
  encryptWallet :: "string \<Rightarrow> string"
  hashWallet :: "string \<Rightarrow> string"
  hashTelegramId :: "string \<Rightarrow> string"

text \<open>
  The state of the service: both tables, the two re-entrancy flags, the number of clock
  readings, the statements run so far, the number of ownership checks started, and the
  locator's trace.
\<close>

record sched_state =
  tasks :: "ProofTask list"
  wallets :: "wallet_row list"
  isProcessingCycle :: bool
  isCleaningUp :: bool
  clock_reads :: nat
  statements :: "db_stmt list"
  locator_calls :: nat
  net :: net_state

definition PROOF_RETRY_LIMIT :: int where
  "PROOF_RETRY_LIMIT = 7"

definition read_clock :: "sched_env \<Rightarrow> sched_state \<Rightarrow> int \<times> sched_state" where
  "read_clock env st = (clock env (clock_reads st), st\<lparr>clock_reads := clock_reads st + 1\<rparr>)"

text \<open>
  Running a statement: it is recorded; it raises (\<open>Inl\<close> the message) without effect
  when the environment says so, and otherwise has its effect.
\<close>

definition db_run ::
  "sched_env \<Rightarrow> db_stmt \<Rightarrow> (nat \<Rightarrow> sched_state \<Rightarrow> 'a \<times> sched_state) \<Rightarrow> sched_state
     \<Rightarrow> (string + 'a) \<times> sched_state" where
  "db_run env stmt effect st =
     (let k = length (statements st);
          st1 = st\<lparr>statements := statements st @ [stmt]\<rparr>
      in case db_fault env k of
           Some msg \<Rightarrow> (Inl msg, st1)
         | None \<Rightarrow> (case effect k st1 of (r, st2) \<Rightarrow> (Inr r, st2)))"


section \<open>The database functions of the scheduler\<close>

definition apply_status :: "status \<Rightarrow> details \<Rightarrow> int \<Rightarrow> ProofTask \<Rightarrow> ProofTask" where
  "apply_status s d ts t =
     t\<lparr>status := s,
       found_tx_hash := (case foundTxHash d of Some h \<Rightarrow> Some h | None \<Rightarrow> found_tx_hash t),
       error_message := (case errorMessage d of Some m \<Rightarrow> Some m | None \<Rightarrow> error_message t),
       last_checked_block :=
         (case lastCheckedBlock d of Some b \<Rightarrow> Some b | None \<Rightarrow> last_checked_block t),
       updated_at := ts\<rparr>"

definition updateProofTaskStatus ::
  "sched_env \<Rightarrow> string \<Rightarrow> status \<Rightarrow> details \<Rightarrow> sched_state \<Rightarrow> (string + unit) \<times> sched_state" where
  "updateProofTaskStatus env taskUid s d st =
     db_run env (UpdateStatus taskUid s d)
       (\<lambda>k st1. ((), st1\<lparr>tasks := map (\<lambda>t. if task_uid t = taskUid
                                             then apply_status s d (db_now env k) t else t)
                                    (tasks st1)\<rparr>)) st"

definition updateProofTaskAttempts ::
  "sched_env \<Rightarrow> string \<Rightarrow> int \<Rightarrow> sched_state \<Rightarrow> (string + unit) \<times> sched_state" where
  "updateProofTaskAttempts env taskUid n st =
     db_run env (UpdateAttempts taskUid n)
       (\<lambda>k st1. ((), st1\<lparr>tasks := map (\<lambda>t. if task_uid t = taskUid
                                             then t\<lparr>attempts := n, updated_at := db_now env k\<rparr>
                                             else t)
                                    (tasks st1)\<rparr>)) st"

text \<open>
  \<open>findProcessableTasks\<close> reads the clock itself; rows of equal \<open>created_at\<close> come in
  table order.
\<close>

definition findProcessableTasks ::
  "sched_env \<Rightarrow> nat \<Rightarrow> sched_state \<Rightarrow> (string + ProofTask list) \<times> sched_state" where
  "findProcessableTasks env limit st =
     (case read_clock env st of
        (nowUtc, st0) \<Rightarrow>
          db_run env (SelectProcessable nowUtc limit)
            (\<lambda>k st1. (take limit (sort_key created_at
                          (filter (\<lambda>t. (status t = Pending \<or> status t = Processing)
                                         \<and> check_deadline_utc t > nowUtc) (tasks st1))), st1)) st0)"

definition getStuckAndExpiredTasks ::
  "sched_env \<Rightarrow> int \<Rightarrow> sched_state \<Rightarrow> (string + ProofTask list) \<times> sched_state" where
  "getStuckAndExpiredTasks env nowUtc st =
     db_run env (SelectStuckAndExpired nowUtc)
       (\<lambda>k st1. (filter (\<lambda>t. (status t = Pending \<or> status t = Processing)
                              \<and> check_deadline_utc t < nowUtc) (tasks st1), st1)) st"

definition getWallet ::
  "sched_env \<Rightarrow> string \<Rightarrow> sched_state \<Rightarrow> (string + wallet_link option) \<times> sched_state" where
  "getWallet env telegramId st =
     (let telegramIdHash = hashTelegramId env telegramId
      in db_run env (SelectWallet telegramIdHash)
           (\<lambda>k st1. (case find (\<lambda>r. telegram_id_hash r = telegramIdHash) (wallets st1) of
                         None \<Rightarrow> None
                       | Some row \<Rightarrow>
                           Some \<lparr>wallet = decryptWallet env (wallet_encrypted row),
                                  proofed = row_proofed row\<rparr>, st1)) st)"

definition saveWalletLink ::
  "sched_env \<Rightarrow> string \<Rightarrow> string \<Rightarrow> bool \<Rightarrow> string option \<Rightarrow> sched_state
     \<Rightarrow> (string + unit) \<times> sched_state" where
  "saveWalletLink env telegramId wal isProofed rawTelegramIdToStore st =
     (let telegramIdHash = hashTelegramId env telegramId;
          finalRawTelegramId = (case rawTelegramIdToStore of
                                  Some raw \<Rightarrow> if raw \<noteq> [] then raw else telegramId
                                | None \<Rightarrow> telegramId);
          walletLower = toLowerCase wal;
          row = \<lparr>telegram_id_hash = telegramIdHash, raw_telegram_id = Some finalRawTelegramId,
                  wallet_hash = hashWallet env walletLower,
                  wallet_encrypted = encryptWallet env walletLower, row_proofed = isProofed\<rparr>
      in db_run env (UpsertWallet telegramIdHash walletLower isProofed)
           (\<lambda>k st1. ((), st1\<lparr>wallets :=
                (if list_ex (\<lambda>r. telegram_id_hash r = telegramIdHash) (wallets st1)
                 then map (\<lambda>r. if telegram_id_hash r = telegramIdHash then row else r) (wallets st1)
                 else wallets st1 @ [row])\<rparr>)) st)"


section \<open>The scheduler\<close>

text \<open>A number in a template string, in decimal.\<close>

definition digit_char :: "nat \<Rightarrow> char" where
  "digit_char d = char_of (48 + d)"

function show_nat :: "nat \<Rightarrow> string" where
  "show_nat n = (if n < 10 then [digit_char n] else show_nat (n div 10) @ [digit_char (n mod 10)])"
  by pat_completeness auto
termination
  by (relation "measure id") auto

declare show_nat.simps [simp del]

definition show_int :: "int \<Rightarrow> string" where
  "show_int i = (if i < 0 then CHR ''-'' # show_nat (nat (- i)) else show_nat (nat i))"

definition max_retry_message :: "int \<Rightarrow> string" where
  "max_retry_message newAttempts =
     ''Max retry limit ('' @ show_int PROOF_RETRY_LIMIT @ '') reached. Attempts: ''
       @ show_int newAttempts"

text \<open>
  The reap phase. \<open>reapLoop\<close> is the \<open>for\<close> loop over the tasks read,
  \<open>reapBody\<close> the body of the \<open>try\<close>; a raised error ends the body, is logged by
  the handler, and the flag is cleared after it.
\<close>

fun reapLoop ::
  "sched_env \<Rightarrow> ProofTask list \<Rightarrow> sched_state \<Rightarrow> (string + unit) \<times> sched_state" where
  "reapLoop env [] st = (Inr (), st)"
| "reapLoop env (task # rest) st =
     (if status task = Pending \<or> status task = Processing then
        (case updateProofTaskStatus env (task_uid task) Expired
                (with_error ''Task auto-expired by cleanup.'') st of
           (Inl e, st1) \<Rightarrow> (Inl e, st1)
         | (Inr u, st1) \<Rightarrow> reapLoop env rest st1)
      else reapLoop env rest st)"

definition reapBody :: "sched_env \<Rightarrow> sched_state \<Rightarrow> (string + unit) \<times> sched_state" where
  "reapBody env st =
     (case read_clock env st of
        (nowUtc, st1) \<Rightarrow>
          (case getStuckAndExpiredTasks env nowUtc st1 of
             (Inl e, st2) \<Rightarrow> (Inl e, st2)
           | (Inr found, st2) \<Rightarrow> reapLoop env found st2))"

definition handleStuckOrExpiredTasks :: "sched_env \<Rightarrow> sched_state \<Rightarrow> sched_state" where
  "handleStuckOrExpiredTasks env st =
     (if isCleaningUp st then st
      else (case reapBody env (st\<lparr>isCleaningUp := True\<rparr>) of
              (r, st1) \<Rightarrow> st1\<lparr>isCleaningUp := False\<rparr>))"

text \<open>
  The part of \<open>processSingleTask\<close> inside its \<open>try\<close>: decryption, the ownership
  check, and the decision on its result. \<open>None\<close> is a check that never returns.
\<close>

definition checkAndDecide ::
  "sched_env \<Rightarrow> ProofTask \<Rightarrow> int \<Rightarrow> string \<Rightarrow> sched_state
     \<Rightarrow> ((string + unit) \<times> sched_state) option" where
  "checkAndDecide env task newAttempts target st =
     (let decryptedWalletAddress = decryptWallet env (wallet_address_encrypted task)
      in if decryptedWalletAddress = [] then
           Some (updateProofTaskStatus env (task_uid task) Error
                   (with_error ''Internal error: Failed to decrypt wallet address'') st)
         else
           (case checkOwnershipAfter (chain env) decryptedWalletAddress (after_timestamp task)
                   (check_deadline_utc task) target (net st) of
              None \<Rightarrow> None
            | Some (proofResult, net1) \<Rightarrow>
                (let st1 = st\<lparr>locator_calls := locator_calls st + 1, net := net1\<rparr>
                 in if isProofConfirmed proofResult then
                      (case saveWalletLink env (telegram_id task) decryptedWalletAddress True
                              (Some (telegram_id task)) st1 of
                         (Inl e, st2) \<Rightarrow> Some (Inl e, st2)
                       | (Inr u, st2) \<Rightarrow>
                           Some (updateProofTaskStatus env (task_uid task) Success
                                   \<lparr>foundTxHash = txHash proofResult, errorMessage = None,
                                      lastCheckedBlock = None\<rparr> st2))
                    else
                      (case read_clock env st1 of
                         (nowUtc, st2) \<Rightarrow>
                           if check_deadline_utc task \<le> nowUtc then
                             Some (updateProofTaskStatus env (task_uid task) Expired
                                     (with_error ''Deadline passed, proof not found.'') st2)
                           else if newAttempts \<ge> PROOF_RETRY_LIMIT then
                             Some (updateProofTaskStatus env (task_uid task) Failed_no_tx
                                     (with_error (max_retry_message newAttempts)) st2)
                           else Some (Inr (), st2)))))"

text \<open>
  \<open>processSingleTask\<close>. The write of \<open>processing\<close> is outside every handler; a raised
  update of \<open>attempts\<close> is logged and the task goes on; an error raised inside the
  \<open>try\<close> makes the handler write \<open>error\<close> with its message.
\<close>

definition processSingleTask ::
  "sched_env \<Rightarrow> ProofTask \<Rightarrow> sched_state \<Rightarrow> ((string + unit) \<times> sched_state) option" where
  "processSingleTask env task st =
     (case CHECK_WALLET env of
        None \<Rightarrow> Some (updateProofTaskStatus env (task_uid task) Error
                        (with_error ''CHECK_WALLET not configured on server'') st)
      | Some target \<Rightarrow>
          if target = [] then
            Some (updateProofTaskStatus env (task_uid task) Error
                    (with_error ''CHECK_WALLET not configured on server'') st)
          else
            (case updateProofTaskStatus env (task_uid task) Processing no_details st of
               (Inl e, st1) \<Rightarrow> Some (Inl e, st1)
             | (Inr u, st1) \<Rightarrow>
                 (let currentAttempts = attempts task;
                      newAttempts = currentAttempts + 1
                  in case updateProofTaskAttempts env (task_uid task) newAttempts st1 of
                       (r, st2) \<Rightarrow>
                         (case checkAndDecide env task newAttempts target st2 of
                            None \<Rightarrow> None
                          | Some (Inr u, st3) \<Rightarrow> Some (Inr (), st3)
                          | Some (Inl msg, st3) \<Rightarrow>
                              Some (updateProofTaskStatus env (task_uid task) Error
                                      (with_error msg) st3)))))"

text \<open>
  The work phase. \<open>workLoop\<close> is the \<open>for\<close> loop over the batch, with the
  \<open>now\<close> read before the batch; \<open>workBody\<close> is the body of the \<open>try\<close>.
\<close>

fun workLoop ::
  "sched_env \<Rightarrow> int \<Rightarrow> ProofTask list \<Rightarrow> sched_state
     \<Rightarrow> ((string + unit) \<times> sched_state) option" where
  "workLoop env now [] st = Some (Inr (), st)"
| "workLoop env now (task # rest) st =
     (if check_deadline_utc task \<le> now then
        (case updateProofTaskStatus env (task_uid task) Expired
                (with_error ''Deadline passed before processing attempt.'') st of
           (Inl e, st1) \<Rightarrow> Some (Inl e, st1)
         | (Inr u, st1) \<Rightarrow> workLoop env now rest st1)
      else
        (case getWallet env (telegram_id task) st of
           (Inl e, st1) \<Rightarrow> Some (Inl e, st1)
         | (Inr existingWalletLink, st1) \<Rightarrow>
             if (case existingWalletLink of None \<Rightarrow> False | Some link \<Rightarrow> proofed link) then
               (case updateProofTaskStatus env (task_uid task) Success
                       (with_error ''Wallet already proofed.'') st1 of
                  (Inl e, st2) \<Rightarrow> Some (Inl e, st2)
                | (Inr u, st2) \<Rightarrow>
                    (case existingWalletLink of
                       None \<Rightarrow> workLoop env now rest st2
                     | Some link \<Rightarrow>
                         if wallet link \<noteq> [] then
                           (case saveWalletLink env (telegram_id task) (wallet link) True
                                   (Some (telegram_id task)) st2 of
                              (Inl e, st3) \<Rightarrow> Some (Inl e, st3)
                            | (Inr u, st3) \<Rightarrow> workLoop env now rest st3)
                         else workLoop env now rest st2))
             else
               (case processSingleTask env task st1 of
                  None \<Rightarrow> None
                | Some (Inl e, st2) \<Rightarrow> Some (Inl e, st2)
                | Some (Inr u, st2) \<Rightarrow> workLoop env now rest st2)))"

definition workBody :: "sched_env \<Rightarrow> sched_state \<Rightarrow> ((string + unit) \<times> sched_state) option" where
  "workBody env st =
     (case read_clock env st of
        (now, st1) \<Rightarrow>
          (case findProcessableTasks env 10 st1 of
             (Inl e, st2) \<Rightarrow> Some (Inl e, st2)
           | (Inr batch, st2) \<Rightarrow> workLoop env now batch st2))"

definition processPendingTasks :: "sched_env \<Rightarrow> sched_state \<Rightarrow> sched_state option" where
  "processPendingTasks env st =
     (if isProcessingCycle st then Some st
      else (case workBody env (st\<lparr>isProcessingCycle := True\<rparr>) of
              None \<Rightarrow> None
            | Some (r, st1) \<Rightarrow> Some (st1\<lparr>isProcessingCycle := False\<rparr>)))"

definition runFullCycle :: "sched_env \<Rightarrow> sched_state \<Rightarrow> sched_state option" where
  "runFullCycle env st = processPendingTasks env (handleStuckOrExpiredTasks env st)"


section \<open>Notions the claims are stated with\<close>

text \<open>
  The four clauses of the match predicate, in the words of the specification: the sender
  is the user wallet and the recipient the target wallet, both compared without regard to
  case, the status is \<open>OK\<close>, and the resolved timestamp lies in
  \<open>[afterTimestamp, deadline)\<close>.
\<close>

definition same_address_ci :: "string option \<Rightarrow> string \<Rightarrow> bool" where
  "same_address_ci a w = (case a of None \<Rightarrow> False | Some s \<Rightarrow> toLowerCase s = toLowerCase w)"

definition four_clauses :: "string \<Rightarrow> string \<Rightarrow> int \<Rightarrow> int \<Rightarrow> tx_node \<times> jsnum \<Rightarrow> bool" where
  "four_clauses userWallet targetWallet afterTimestamp deadline entry =
     (case entry of (txNode, ts) \<Rightarrow>
        same_address_ci (fromAddressHash txNode) userWallet
        \<and> same_address_ci (toAddressHash txNode) targetWallet
        \<and> tx_status txNode = ''OK''
        \<and> (case ts of NaN \<Rightarrow> False | Num t \<Rightarrow> afterTimestamp \<le> t \<and> t < deadline))"

text \<open>
  What a search that returned \<open>r\<close> must have logged: when \<open>r\<close> is null no
  evaluated transaction matches; when \<open>r\<close> is a transaction, the last evaluated one
  matches, none before it does, and \<open>r\<close> carries its hash.
\<close>

definition first_match_trace ::
  "(tx_node \<times> jsnum \<Rightarrow> bool) \<Rightarrow> ProofTransaction option \<Rightarrow> (tx_node \<times> jsnum) list \<Rightarrow> bool" where
  "first_match_trace matches r new =
     (case r of
        None \<Rightarrow> list_all (\<lambda>e. \<not> matches e) new
      | Some found \<Rightarrow>
          new \<noteq> [] \<and> list_all (\<lambda>e. \<not> matches e) (butlast new) \<and> matches (last new)
          \<and> pt_hash found = tx_hash (fst (last new)))"


text \<open>
  The answers on which the primary loop sets \<open>useFallbackQuery\<close>, and the page an
  answer carries (no \<open>errors\<close>, and \<open>edges\<close> present).
\<close>

definition triggersFallback :: "response \<Rightarrow> bool" where
  "triggersFallback resp =
     (case resp of
        HttpError code \<Rightarrow> code = Some 500
      | HttpOk body \<Rightarrow> errors body \<noteq> [] \<and> isInternalError (errors body))"

definition pageOf :: "response \<Rightarrow> tx_page option" where
  "pageOf resp =
     (case resp of
        HttpError code \<Rightarrow> None
      | HttpOk body \<Rightarrow> if errors body = [] then transactions body else None)"

definition primary_result :: "response \<Rightarrow> nat \<Rightarrow> primary_outcome \<Rightarrow> bool" where
  "primary_result resp n out =
     (case out of
        PrimaryTriggersFallback \<Rightarrow> triggersFallback resp
      | PrimaryData pg \<Rightarrow> \<not> triggersFallback resp \<and> pageOf resp = Some pg
      | PrimaryExhausted \<Rightarrow>
          n = MAX_API_CALL_ATTEMPTS \<and> \<not> triggersFallback resp \<and> pageOf resp = None)"

definition fallback_result :: "response \<Rightarrow> nat \<Rightarrow> tx_page option \<Rightarrow> bool" where
  "fallback_result resp n out =
     (case out of
        Some pg \<Rightarrow> pageOf resp = Some pg
      | None \<Rightarrow> n = MAX_API_CALL_ATTEMPTS \<and> pageOf resp = None)"

text \<open>
  The timestamps a page of the primary query shows, and "the oldest of them is below
  \<open>afterTimestamp\<close>": one of them is. \<open>lastTxTimestampOnPage\<close> is the timestamp the
  source compares instead, that of the last edge of the page.
\<close>

definition observed_timestamps :: "explorer_env \<Rightarrow> tx_page \<Rightarrow> jsnum list" where
  "observed_timestamps env pg =
     List.map_filter
       (\<lambda>edge. case edge of
                 None \<Rightarrow> None
               | Some txNode \<Rightarrow>
                   (case block_timestamp txNode of
                      None \<Rightarrow> None
                    | Some ts \<Rightarrow> if ts = [] then None
                                else Some (floor_seconds (parseDate env ts))))
       (edges pg)"

definition oldest_observed_below :: "explorer_env \<Rightarrow> tx_page \<Rightarrow> int \<Rightarrow> bool" where
  "oldest_observed_below env pg afterTimestamp =
     list_ex (\<lambda>ts. js_lt ts afterTimestamp) (observed_timestamps env pg)"

definition lastTxTimestampOnPage :: "explorer_env \<Rightarrow> tx_page \<Rightarrow> jsnum option" where
  "lastTxTimestampOnPage env pg =
     (if edges pg = [] then None
      else (case last (edges pg) of
              None \<Rightarrow> None
            | Some lastTxNodeOnPage \<Rightarrow>
                (case block_timestamp lastTxNodeOnPage of
                   None \<Rightarrow> None
                 | Some ts \<Rightarrow> if ts = [] then None
                             else Some (floor_seconds (parseDate env ts)))))"

text \<open>
  The terminal statuses, as the specification lists them, and the statuses the two
  selection queries ask for.
\<close>

definition terminal :: "status \<Rightarrow> bool" where
  "terminal s = (s = Success \<or> s = Failed_no_tx \<or> s = Expired \<or> s = Error \<or> s = Cancelled)"

definition selectable :: "ProofTask \<Rightarrow> bool" where
  "selectable t = (status t = Pending \<or> status t = Processing)"

text \<open>The timer's successive cycles, none overlapping the next.\<close>

fun runCycles :: "sched_env \<Rightarrow> nat \<Rightarrow> sched_state \<Rightarrow> sched_state option" where
  "runCycles env 0 st = Some st"
| "runCycles env (Suc n) st =
     (case runFullCycle env st of None \<Rightarrow> None | Some st1 \<Rightarrow> runCycles env n st1)"

text \<open>
  From \<open>st\<close> to \<open>st'\<close> the table keeps its rows' identifiers, and only rows whose
  identifier is in \<open>U\<close> may differ.
\<close>

definition writes_only :: "string set \<Rightarrow> sched_state \<Rightarrow> sched_state \<Rightarrow> bool" where
  "writes_only U st st' =
     (map task_uid (tasks st') = map task_uid (tasks st)
      \<and> (\<forall>i < length (tasks st). task_uid (tasks st ! i) \<notin> U \<longrightarrow> tasks st' ! i = tasks st ! i))"

text \<open>
  A statement that writes an error message does so with status \<open>error\<close>,
  \<open>expired\<close> or \<open>failed_no_tx\<close>, or with \<open>success\<close> and the note of the
  already-proofed path. \<open>appends P st st'\<close>: the statements run from \<open>st\<close> to
  \<open>st'\<close> all satisfy \<open>P\<close>.
\<close>

definition message_allowed :: "db_stmt \<Rightarrow> bool" where
  "message_allowed stmt =
     (case stmt of
        UpdateStatus u s d \<Rightarrow>
          (case errorMessage d of
             None \<Rightarrow> True
           | Some m \<Rightarrow> s = Error \<or> s = Expired \<or> s = Failed_no_tx
                       \<or> (s = Success \<and> m = ''Wallet already proofed.''))
      | _ \<Rightarrow> True)"

definition appends :: "(db_stmt \<Rightarrow> bool) \<Rightarrow> sched_state \<Rightarrow> sched_state \<Rightarrow> bool" where
  "appends P st st' = (\<exists>new. statements st' = statements st @ new \<and> list_all P new)"



definition attempts_kept :: "sched_state \<Rightarrow> sched_state \<Rightarrow> bool" where
  "attempts_kept st st' =
     (map task_uid (tasks st') = map task_uid (tasks st)
      \<and> map attempts (tasks st') = map attempts (tasks st)
      \<and> locator_calls st' = locator_calls st)"

definition attempts_step :: "string \<Rightarrow> int \<Rightarrow> sched_state \<Rightarrow> sched_state \<Rightarrow> bool" where
  "attempts_step u a st st' =
     (map task_uid (tasks st') = map task_uid (tasks st)
      \<and> (\<forall>j < length (tasks st).
            attempts (tasks st' ! j) = attempts (tasks st ! j)
            \<or> (task_uid (tasks st ! j) = u \<and> attempts (tasks st' ! j) = a + 1))
      \<and> (locator_calls st' = locator_calls st \<or> locator_calls st' = locator_calls st + 1))"

definition attempts_grow :: "sched_state \<Rightarrow> sched_state \<Rightarrow> bool" where
  "attempts_grow st st' =
     (\<forall>j < length (tasks st).
        attempts (tasks st ! j) \<le> attempts (tasks st' ! j)
        \<and> attempts (tasks st' ! j) \<le> attempts (tasks st ! j) + 1)"

text \<open>From \<open>st\<close> to \<open>st'\<close> both re-entrancy flags are as they were.\<close>

definition flags_kept :: "sched_state \<Rightarrow> sched_state \<Rightarrow> bool" where
  "flags_kept st st' =
     (isCleaningUp st' = isCleaningUp st \<and> isProcessingCycle st' = isProcessingCycle st)"

text \<open>
  The transaction a match is reported as, and the transactions of a page in page order,
  each with the timestamp the scan resolves for it when its turn comes; edges without a
  node and transactions whose timestamp does not resolve are left out, as the scan skips
  them. On the primary path the timestamp is the one the page carries, so the list is a
  function of the page alone (\<open>primary_entry\<close>). \<open>up_to_first P xs\<close> is \<open>xs\<close> up to and
  including its first element that satisfies \<open>P\<close>.
\<close>

definition proofOf :: "tx_node \<Rightarrow> jsnum \<Rightarrow> ProofTransaction" where
  "proofOf txNode ts =
     \<lparr>pt_hash = tx_hash txNode, pt_from = fromAddressHash txNode, pt_to = toAddressHash txNode,
      pt_blockNumber = blockNumber txNode, pt_timestamp = ts\<rparr>"

fun evaluated ::
  "explorer_env \<Rightarrow> bool \<Rightarrow> tx_node option list \<Rightarrow> net_state \<Rightarrow> (tx_node \<times> jsnum) list" where
  "evaluated env fb [] st = []"
| "evaluated env fb (edge # rest) st =
     (case edge of
        None \<Rightarrow> evaluated env fb rest st
      | Some txNode \<Rightarrow>
          (case resolveTimestamp env fb txNode st of
             (None, st1) \<Rightarrow> evaluated env fb rest st1
           | (Some ts, st1) \<Rightarrow>
               (txNode, ts) # evaluated env fb rest (st1\<lparr>checked := checked st1 @ [(txNode, ts)]\<rparr>)))"

definition primary_entry :: "explorer_env \<Rightarrow> tx_node option \<Rightarrow> (tx_node \<times> jsnum) option" where
  "primary_entry env edge =
     (case edge of
        None \<Rightarrow> None
      | Some txNode \<Rightarrow>
          (case block_timestamp txNode of
             None \<Rightarrow> None
           | Some ts \<Rightarrow> if ts = [] then None
                       else Some (txNode, floor_seconds (parseDate env ts))))"

definition up_to_first :: "('a \<Rightarrow> bool) \<Rightarrow> 'a list \<Rightarrow> 'a list" where
  "up_to_first P xs =
     (case find P xs of None \<Rightarrow> xs | Some m \<Rightarrow> takeWhile (\<lambda>e. \<not> P e) xs @ [m])"

text \<open>
  A statement that writes an error message with no other status than \<open>error\<close>,
  \<open>expired\<close> or \<open>failed_no_tx\<close>. The work loop takes the already-proofed path for a
  task when the task's deadline is after the loop's \<open>now\<close> and the wallet lookup yields a
  link marked proofed; \<open>note_write\<close> is the write of that path. \<open>head_statement\<close>: what
  the work loop may run for the task at the head of its batch.
\<close>

definition message_strict :: "db_stmt \<Rightarrow> bool" where
  "message_strict stmt =
     (case stmt of
        UpdateStatus u s d \<Rightarrow>
          (case errorMessage d of
             None \<Rightarrow> True
           | Some m \<Rightarrow> s = Error \<or> s = Expired \<or> s = Failed_no_tx)
      | _ \<Rightarrow> True)"

definition already_proofed :: "sched_env \<Rightarrow> ProofTask \<Rightarrow> int \<Rightarrow> sched_state \<Rightarrow> bool" where
  "already_proofed env task now st =
     (\<not> check_deadline_utc task \<le> now
      \<and> (case fst (getWallet env (telegram_id task) st) of
            Inr (Some link) \<Rightarrow> proofed link
          | _ \<Rightarrow> False))"

definition note_write :: "ProofTask \<Rightarrow> db_stmt" where
  "note_write task = UpdateStatus (task_uid task) Success (with_error ''Wallet already proofed.'')"

definition head_statement :: "sched_env \<Rightarrow> ProofTask \<Rightarrow> int \<Rightarrow> sched_state \<Rightarrow> db_stmt \<Rightarrow> bool" where
  "head_statement env task now st stmt =
     (message_strict stmt \<or> (already_proofed env task now st \<and> stmt = note_write task))"

text \<open>
  The outcome of a status update issued inside the \<open>try\<close> of \<open>processSingleTask\<close> as
  statement \<open>k\<close>: the row has the status and the message written; or the statement
  raised, and the handler's update (statement \<open>k + 1\<close>) wrote \<open>error\<close> with the raised
  message; or that one raised as well, the error leaves \<open>processSingleTask\<close> and the row
  is still \<open>processing\<close>.
\<close>

definition written_or_error ::
  "sched_env \<Rightarrow> nat \<Rightarrow> nat \<Rightarrow> status \<Rightarrow> string \<Rightarrow> (string + unit) \<Rightarrow> sched_state \<Rightarrow> bool" where
  "written_or_error env k i s m r st' =
     (case db_fault env k of
        None \<Rightarrow> r = Inr () \<and> status (tasks st' ! i) = s \<and> error_message (tasks st' ! i) = Some m
      | Some e \<Rightarrow>
          (case db_fault env (k + 1) of
             None \<Rightarrow> r = Inr () \<and> status (tasks st' ! i) = Error
                     \<and> error_message (tasks st' ! i) = Some e
           | Some e2 \<Rightarrow> r = Inl e2 \<and> status (tasks st' ! i) = Processing))"


section \<open>Sample explorers\<close>

text \<open>Concrete wallets, transactions and explorers on which the theorems are instantiated.\<close>

definition sample_user :: string where
  "sample_user = ''0x'' @ replicate 40 (CHR ''a'')"

definition sample_target :: string where
  "sample_target = ''0x'' @ replicate 40 (CHR ''b'')"

definition sample_tx :: "string \<Rightarrow> string \<Rightarrow> string option \<Rightarrow> tx_node" where
  "sample_tx h st ts =
     \<lparr>tx_hash = h, fromAddressHash = Some (''0x'' @ replicate 40 (CHR ''A'')),
      toAddressHash = Some sample_target, tx_value = ''0'', tx_status = st,
      block_timestamp = ts, blockNumber = Some 7\<rparr>"

definition sample_parseDate :: "string \<Rightarrow> jsnum" where
  "sample_parseDate s =
     (if s = ''T+10'' then Num 1010999 else if s = ''T+20'' then Num 1020000
      else if s = ''T-5'' then Num 995000 else NaN)"

definition empty_trace :: net_state where
  "empty_trace = \<lparr>requests = [], checked = []\<rparr>"

definition body_of_page :: "tx_page \<Rightarrow> response" where
  "body_of_page pg = HttpOk \<lparr>errors = [], transactions = Some pg, block_ts = None\<rparr>"

definition one_page_explorer :: explorer_env where
  "one_page_explorer =
     \<lparr>explorer = (\<lambda>k q. body_of_page
         \<lparr>edges = [Some (sample_tx ''h1'' ''ERROR'' (Some ''T+10'')), None,
                    Some (sample_tx ''h2'' ''OK'' (Some ''T+10'')),
                    Some (sample_tx ''h3'' ''OK'' (Some ''T+20''))],
           pageInfo = None\<rparr>),
      parseDate = sample_parseDate\<rparr>"

definition unreachable_explorer :: explorer_env where
  "unreachable_explorer = \<lparr>explorer = (\<lambda>k q. HttpError None), parseDate = sample_parseDate\<rparr>"

definition fallback_only_explorer :: explorer_env where
  "fallback_only_explorer =
     \<lparr>explorer = (\<lambda>k q. case q of
          PrimaryQuery u c \<Rightarrow> HttpError (Some 500)
        | FallbackQuery u c \<Rightarrow> body_of_page
            \<lparr>edges = [Some (sample_tx ''h2'' ''OK'' None)], pageInfo = None\<rparr>
        | BlockTimestampQuery bn \<Rightarrow>
            HttpOk \<lparr>errors = [], transactions = None, block_ts = Some ''T+10''\<rparr>),
      parseDate = sample_parseDate\<rparr>"

definition unsorted_page :: tx_page where
  "unsorted_page =
     \<lparr>edges = [Some (sample_tx ''h1'' ''OK'' (Some ''T-5'')),
                Some (sample_tx ''h4'' ''ERROR'' (Some ''T+20''))],
      pageInfo = Some \<lparr>hasNextPage = True, endCursor = Some ''c1''\<rparr>\<rparr>"

definition unsorted_explorer :: explorer_env where
  "unsorted_explorer =
     \<lparr>explorer = (\<lambda>k q. if q = PrimaryQuery sample_user None then body_of_page unsorted_page
                         else body_of_page \<lparr>edges = [], pageInfo = None\<rparr>),
      parseDate = sample_parseDate\<rparr>"


definition newest_first_page :: tx_page where
  "newest_first_page =
     \<lparr>edges = [Some (sample_tx ''h4'' ''ERROR'' (Some ''T+20'')),
                Some (sample_tx ''h1'' ''OK'' (Some ''T-5''))],
      pageInfo = Some \<lparr>hasNextPage = True, endCursor = Some ''c1''\<rparr>\<rparr>"

definition newest_first_explorer :: explorer_env where
  "newest_first_explorer =
     \<lparr>explorer = (\<lambda>k q. body_of_page newest_first_page), parseDate = sample_parseDate\<rparr>"

text \<open>A scheduler environment with a constant clock, and states built from rows.\<close>

definition sample_decrypt :: "string \<Rightarrow> string" where
  "sample_decrypt s = (if take 4 s = ''enc:'' then drop 4 s else [])"

definition sample_env :: "explorer_env \<Rightarrow> int \<Rightarrow> (nat \<Rightarrow> string option) \<Rightarrow> sched_env" where
  "sample_env ex now faults =
     \<lparr>chain = ex, clock = (\<lambda>k. now), db_now = (\<lambda>k. now), db_fault = faults,
      CHECK_WALLET = Some sample_target, decryptWallet = sample_decrypt,
      encryptWallet = (\<lambda>w. ''enc:'' @ w), hashWallet = (\<lambda>w. ''hw:'' @ w),
      hashTelegramId = (\<lambda>t. ''ht:'' @ t)\<rparr>"

definition sample_task :: "string \<Rightarrow> string \<Rightarrow> status \<Rightarrow> int \<Rightarrow> ProofTask" where
  "sample_task uid tg s n =
     \<lparr>task_uid = uid, telegram_id = tg, wallet_address_encrypted = ''enc:'' @ sample_user,
      after_timestamp = 1000, check_deadline_utc = 1900, status = s, attempts = n,
      created_at = 1000, updated_at = 1000, found_tx_hash = None, error_message = None,
      last_checked_block = None\<rparr>"

definition sample_state :: "ProofTask list \<Rightarrow> wallet_row list \<Rightarrow> sched_state" where
  "sample_state ts ws =
     \<lparr>tasks = ts, wallets = ws, isProcessingCycle = False, isCleaningUp = False,
      clock_reads = 0, statements = [], locator_calls = 0, net = empty_trace\<rparr>"

definition no_faults :: "nat \<Rightarrow> string option" where
  "no_faults k = None"

text \<open>
  Tasks whose stored wallet decrypts to a string that is no address, so that the ownership
  check answers without a request.
\<close>

definition short_task :: "string \<Rightarrow> string \<Rightarrow> status \<Rightarrow> int \<Rightarrow> int \<Rightarrow> ProofTask" where
  "short_task uid tg s n deadline =
     \<lparr>task_uid = uid, telegram_id = tg, wallet_address_encrypted = ''enc:0x12'',
      after_timestamp = 1000, check_deadline_utc = deadline, status = s, attempts = n,
      created_at = 1000, updated_at = 1000, found_tx_hash = None, error_message = None,
      last_checked_block = None\<rparr>"

definition mixed_state :: sched_state where
  "mixed_state =
     sample_state [short_task ''t1'' ''42'' Pending 6 1900, short_task ''t2'' ''43'' Processing 2 1500,
                   short_task ''t3'' ''44'' Success 2 1900] []"

definition proofed_state :: sched_state where
  "proofed_state =
     sample_state [short_task ''t1'' ''42'' Pending 0 1900]
       [\<lparr>telegram_id_hash = ''ht:42'', raw_telegram_id = None, wallet_hash = ''hw:0x12'',
         wallet_encrypted = ''enc:0x12'', row_proofed = True\<rparr>]"

definition lone_state :: "int \<Rightarrow> sched_state" where
  "lone_state n = sample_state [short_task ''t1'' ''42'' Pending n 1900] []"


definition empty_history_explorer :: explorer_env where
  "empty_history_explorer =
     \<lparr>explorer = (\<lambda>k q. body_of_page \<lparr>edges = [], pageInfo = None\<rparr>),
      parseDate = sample_parseDate\<rparr>"

definition attempts_update_fails :: "nat \<Rightarrow> string option" where
  "attempts_update_fails k = (if k = 3 then Some ''database is locked'' else None)"

definition fresh_state :: sched_state where
  "fresh_state = sample_state [sample_task ''t1'' ''42'' Pending 0] []"

text \<open>
  An explorer whose every page holds one failed transaction inside the window and announces
  a next page, and a database whose first statement raises.
\<close>

definition endless_page :: tx_page where
  "endless_page =
     \<lparr>edges = [Some (sample_tx ''h1'' ''ERROR'' (Some ''T+10''))],
      pageInfo = Some \<lparr>hasNextPage = True, endCursor = Some ''c1''\<rparr>\<rparr>"

definition endless_explorer :: explorer_env where
  "endless_explorer =
     \<lparr>explorer = (\<lambda>k q. body_of_page endless_page), parseDate = sample_parseDate\<rparr>"

definition select_fails :: "nat \<Rightarrow> string option" where
  "select_fails k = (if k = 0 then Some ''database is locked'' else None)"

text \<open>
  The page \<open>one_page_explorer\<close> serves; a database whose third statement raises, and a
  table whose only task has used six attempts.
\<close>

definition one_page :: tx_page where
  "one_page =
     \<lparr>edges = [Some (sample_tx ''h1'' ''ERROR'' (Some ''T+10'')), None,
                Some (sample_tx ''h2'' ''OK'' (Some ''T+10'')),
                Some (sample_tx ''h3'' ''OK'' (Some ''T+20''))],
      pageInfo = None\<rparr>"

definition status_update_fails :: "nat \<Rightarrow> string option" where
  "status_update_fails k = (if k = 2 then Some ''database is locked'' else None)"

definition last_attempt_state :: sched_state where
  "last_attempt_state = sample_state [sample_task ''t1'' ''42'' Pending 6] []"

text \<open>
  Two pending tasks, the second with the earlier deadline, and a clock that passes that
  deadline while the first task is being checked: \<open>overlap_selected\<close> is what the work
  phase reads at 1870. \<open>deadline_env\<close>: a clock that reaches the deadline 1900 of
  \<open>sample_task\<close> while the task is being checked.
\<close>

definition overlap_clock :: "nat \<Rightarrow> int" where
  "overlap_clock k = (if k < 2 then 1870 else if k = 2 then 1875 else 1885)"

definition overlap_env :: sched_env where
  "overlap_env = (sample_env empty_history_explorer 1870 no_faults)\<lparr>clock := overlap_clock\<rparr>"

definition early_task :: ProofTask where
  "early_task = (sample_task ''t2'' ''43'' Pending 0)\<lparr>check_deadline_utc := 1880\<rparr>"

definition overlap_state :: sched_state where
  "overlap_state = sample_state [sample_task ''t1'' ''42'' Pending 0, early_task] []"

definition overlap_selected :: "(string + ProofTask list) \<times> sched_state" where
  "overlap_selected =
     findProcessableTasks overlap_env 10
       (snd (read_clock overlap_env (overlap_state\<lparr>isProcessingCycle := True\<rparr>)))"

definition row_summary :: "nat \<Rightarrow> sched_state \<Rightarrow> status \<times> int \<times> string option" where
  "row_summary i st = (status (tasks st ! i), attempts (tasks st ! i), error_message (tasks st ! i))"

definition deadline_clock :: "nat \<Rightarrow> int" where
  "deadline_clock k = (if k < 2 then 1870 else 1900)"

definition deadline_env :: sched_env where
  "deadline_env = (sample_env empty_history_explorer 1870 no_faults)\<lparr>clock := deadline_clock\<rparr>"



section \<open>Properties of the locator\<close>

subsection \<open>Only the scan extends the log of evaluated transactions\<close>

lemma matchesCriteria_four_clauses:
  "matchesCriteria (toLowerCase u) (toLowerCase t) a d n ts = four_clauses u t a d (n, ts)"
  by (cases ts; cases "fromAddressHash n"; cases "toAddressHash n")
     (auto simp: matchesCriteria_def four_clauses_def same_address_ci_def Let_def)

lemma post_checked: "post env q st = (resp, st1) \<Longrightarrow> checked st1 = checked st"
  by (auto simp: post_def)

lemma getTimestamp_checked:
  "getTimestampForBlockGraphQL env bn a st = (r, st') \<Longrightarrow> checked st' = checked st"
proof (induction env bn a st arbitrary: r st' rule: getTimestampForBlockGraphQL.induct)
  case (1 env bn a st)
  show ?case
    using "1.prems"
    apply (subst (asm) getTimestampForBlockGraphQL.simps)
    using "1.IH"
    apply (auto simp: Let_def post_def split: response.splits if_splits option.splits prod.splits)
    done
qed


lemma primaryAttempts_checked:
  "primaryAttempts env user cursor a st = (r, st') \<Longrightarrow> checked st' = checked st"
proof (induction env user cursor a st arbitrary: r st' rule: primaryAttempts.induct)
  case (1 env user cursor a st)
  show ?case
    using "1.prems"
    apply (subst (asm) primaryAttempts.simps)
    using "1.IH"
    apply (auto simp: Let_def post_def split: response.splits if_splits option.splits prod.splits)
    done
qed

lemma fallbackAttempts_checked:
  "fallbackAttempts env user cursor a st = (r, st') \<Longrightarrow> checked st' = checked st"
proof (induction env user cursor a st arbitrary: r st' rule: fallbackAttempts.induct)
  case (1 env user cursor a st)
  show ?case
    using "1.prems"
    apply (subst (asm) fallbackAttempts.simps)
    using "1.IH"
    apply (auto simp: Let_def post_def split: response.splits if_splits option.splits prod.splits)
    done
qed

lemma fetchPage_checked:
  "fetchPage env user cursor st = (r, st') \<Longrightarrow> checked st' = checked st"
proof -
  obtain po st1 where p: "primaryAttempts env user cursor 0 st = (po, st1)"
    by (cases "primaryAttempts env user cursor 0 st")
  obtain fo st2 where f: "fallbackAttempts env user cursor 0 st1 = (fo, st2)"
    by (cases "fallbackAttempts env user cursor 0 st1")
  assume "fetchPage env user cursor st = (r, st')"
  with p f primaryAttempts_checked[OF p] fallbackAttempts_checked[OF f] show ?thesis
    by (auto simp: fetchPage_def split: primary_outcome.splits option.splits)
qed

lemma resolveTimestamp_checked:
  "resolveTimestamp env fb n st = (r, st') \<Longrightarrow> checked st' = checked st"
  by (auto simp: resolveTimestamp_def split: if_splits option.splits
           dest: getTimestamp_checked)

lemma first_match_trace_skip:
  "\<not> matches e \<Longrightarrow> first_match_trace matches r new \<Longrightarrow> first_match_trace matches r (e # new)"
  by (cases r) (auto simp: first_match_trace_def)

lemma first_match_trace_append:
  "list_all (\<lambda>e. \<not> matches e) pre \<Longrightarrow> first_match_trace matches r new
     \<Longrightarrow> first_match_trace matches r (pre @ new)"
  by (induction pre) (auto intro: first_match_trace_skip)

lemma scanEdges_trace:
  "scanEdges env fb user target after deadline es st = (r, st')
     \<Longrightarrow> \<exists>new. checked st' = checked st @ new
               \<and> first_match_trace (\<lambda>(n, ts). matchesCriteria user target after deadline n ts) r new"
proof (induction es arbitrary: st)
  case Nil
  then show ?case by (auto simp: first_match_trace_def)
next
  case (Cons edge rest)
  show ?case
  proof (cases edge)
    case None
    with Cons show ?thesis by simp
  next
    case (Some txNode)
    obtain rt st1 where rs: "resolveTimestamp env fb txNode st = (rt, st1)"
      by (cases "resolveTimestamp env fb txNode st")
    have c1: "checked st1 = checked st" using rs by (rule resolveTimestamp_checked)
    show ?thesis
    proof (cases rt)
      case None
      with Cons.prems \<open>edge = Some txNode\<close> rs
      have "scanEdges env fb user target after deadline rest st1 = (r, st')" by simp
      from Cons.IH[OF this] c1 show ?thesis by simp
    next
      case (Some ts)
      let ?st2 = "st1\<lparr>checked := checked st1 @ [(txNode, ts)]\<rparr>"
      show ?thesis
      proof (cases "matchesCriteria user target after deadline txNode ts")
        case True
        with Cons.prems \<open>edge = Some txNode\<close> rs Some c1
        have "r = Some \<lparr>pt_hash = tx_hash txNode, pt_from = fromAddressHash txNode,
                          pt_to = toAddressHash txNode, pt_blockNumber = blockNumber txNode,
                          pt_timestamp = ts\<rparr>" and "st' = ?st2"
          by (auto simp: Let_def)
        with True c1 show ?thesis
          by (auto simp: first_match_trace_def intro!: exI[of _ "[(txNode, ts)]"])
      next
        case False
        with Cons.prems \<open>edge = Some txNode\<close> rs Some
        have "scanEdges env fb user target after deadline rest ?st2 = (r, st')"
          by (auto simp: Let_def)
        from Cons.IH[OF this] obtain new where
          n: "checked st' = checked ?st2 @ new"
             "first_match_trace (\<lambda>(n, ts). matchesCriteria user target after deadline n ts) r new"
          by blast
        have "first_match_trace (\<lambda>(n, ts). matchesCriteria user target after deadline n ts) r
                ((txNode, ts) # new)"
          using False n(2) by (intro first_match_trace_skip) auto
        with n(1) c1 show ?thesis by auto
      qed
    qed
  qed
qed

lemma pageLoop_trace:
  assumes "pageLoop env user target after deadline cursor st = Some y"
  shows "\<exists>new. checked (snd y) = checked st @ new
               \<and> first_match_trace (\<lambda>(n, ts). matchesCriteria user target after deadline n ts)
                     (fst y) new"
  using assms
proof (induct rule: pageLoop.raw_induct[rotated 1, consumes 1, case_names step])
  case (step loop env user target after deadline cursor st y)
  note 1 = step
  obtain pf st1 where f: "fetchPage env user cursor st = (pf, st1)"
    by (cases "fetchPage env user cursor st")
  have c1: "checked st1 = checked st" using f by (rule fetchPage_checked)
  show ?case
  proof (cases pf)
    case PageFailed
    with 1(2) f c1 show ?thesis by (auto simp: first_match_trace_def)
  next
    case (PageFetched fb pg)
    obtain r st2 where sc: "scanEdges env fb user target after deadline (edges pg) st1 = (r, st2)"
      by (cases "scanEdges env fb user target after deadline (edges pg) st1")
    from scanEdges_trace[OF sc] obtain new where
      n: "checked st2 = checked st1 @ new"
         "first_match_trace (\<lambda>(n, ts). matchesCriteria user target after deadline n ts) r new"
      by blast
    show ?thesis
    proof (cases r)
      case (Some found)
      with 1(2) f PageFetched sc have "y = (Some found, st2)" by simp
      with n c1 Some show ?thesis by auto
    next
      case None
      show ?thesis
      proof (cases "nextCursorAfter env fb after pg")
        case None
        with 1(2) f PageFetched sc \<open>r = None\<close> have "y = (None, st2)" by simp
        with n c1 \<open>r = None\<close> show ?thesis by auto
      next
        case (Some c)
        with 1(2) f PageFetched sc \<open>r = None\<close>
        have "loop env user target after deadline (Some c) st2 = Some y" by simp
        from 1(1)[OF this] obtain new2 where
          n2: "checked (snd y) = checked st2 @ new2"
              "first_match_trace (\<lambda>(n, ts). matchesCriteria user target after deadline n ts)
                 (fst y) new2"
          by blast
        have "list_all (\<lambda>e. \<not> (case e of (n, ts) \<Rightarrow>
                 matchesCriteria user target after deadline n ts)) new"
          using n(2) \<open>r = None\<close> by (simp add: first_match_trace_def)
        from first_match_trace_append[OF this n2(2)] n2(1) n(1) c1
        show ?thesis by auto
      qed
    qed
  qed
qed



subsection \<open>The requests of one page fetch\<close>

lemma primaryAttempts_trace:
  assumes "primaryAttempts env u c a st = (out, st')" "a < MAX_API_CALL_ATTEMPTS"
  shows "\<exists>p. 1 \<le> p \<and> a + p \<le> MAX_API_CALL_ATTEMPTS
           \<and> requests st' = requests st @ replicate p (PrimaryQuery u c)
           \<and> primary_result (explorer env (length (requests st) + p - 1) (PrimaryQuery u c))
                 (a + p) out
           \<and> (\<forall>j. j + 1 < p \<longrightarrow>
                  \<not> triggersFallback (explorer env (length (requests st) + j) (PrimaryQuery u c)))"
  using assms
proof (induction "MAX_API_CALL_ATTEMPTS - a" arbitrary: a st out st' rule: less_induct)
  case less
  let ?Q = "PrimaryQuery u c"
  let ?resp = "explorer env (length (requests st)) ?Q"
  let ?st1 = "st\<lparr>requests := requests st @ [?Q]\<rparr>"
  have p: "post env ?Q st = (?resp, ?st1)" by (simp add: post_def)
  have now: "?case" if "out = o1" "st' = ?st1" "primary_result ?resp (a + 1) o1" for o1
    using that less.prems(2) by (intro exI[of _ 1]) simp
  have later: "?case"
    if r: "primaryAttempts env u c (a + 1) ?st1 = (out, st')"
      and nt: "\<not> triggersFallback ?resp" "pageOf ?resp = None"
  proof (cases "a + 1 < MAX_API_CALL_ATTEMPTS")
    case True
    have d: "MAX_API_CALL_ATTEMPTS - (a + 1) < MAX_API_CALL_ATTEMPTS - a"
      using less.prems(2) by simp
    from less.hyps[OF d r True] obtain p where
      pp: "1 \<le> p" "a + 1 + p \<le> MAX_API_CALL_ATTEMPTS"
          "requests st' = requests ?st1 @ replicate p ?Q"
          "primary_result (explorer env (length (requests ?st1) + p - 1) ?Q) (a + 1 + p) out"
          "\<forall>j. j + 1 < p \<longrightarrow> \<not> triggersFallback (explorer env (length (requests ?st1) + j) ?Q)"
      by blast
    have "requests st' = requests st @ replicate (Suc p) ?Q"
      using pp(3) by simp
    moreover have "length (requests ?st1) + p - 1 = length (requests st) + Suc p - 1"
      using pp(1) by simp
    moreover have "\<not> triggersFallback (explorer env (length (requests st) + j) ?Q)"
      if "j + 1 < Suc p" for j
    proof (cases j)
      case 0
      with nt show ?thesis by simp
    next
      case (Suc j')
      with that pp(5) have "\<not> triggersFallback (explorer env (length (requests ?st1) + j') ?Q)"
        by simp
      with Suc show ?thesis by simp
    qed
    ultimately show ?thesis using pp(1,2,4)
      by (intro exI[of _ "Suc p"]) (simp add: add.commute add.left_commute)
  next
    case False
    with less.prems(2) have m: "a + 1 = MAX_API_CALL_ATTEMPTS" by simp
    with r have "out = PrimaryExhausted" "st' = ?st1"
      by (simp_all add: primaryAttempts.simps)
    with m nt show ?thesis
      by (intro exI[of _ 1]) (simp add: primary_result_def)
  qed
  show ?case
  proof (cases ?resp)
    case (HttpError code)
    show ?thesis
    proof (cases "code = Some 500")
      case True
      with less.prems HttpError p have "out = PrimaryTriggersFallback" "st' = ?st1"
        by (subst (asm) primaryAttempts.simps, simp add: Let_def)+
      then have "out = PrimaryTriggersFallback" "st' = ?st1" by simp_all
      moreover have "primary_result ?resp (a + 1) PrimaryTriggersFallback"
        using HttpError True by (simp add: primary_result_def triggersFallback_def)
      ultimately show ?thesis by (rule now)
    next
      case False
      with less.prems HttpError p
      have r: "primaryAttempts env u c (a + 1) ?st1 = (out, st')"
        by (subst (asm) primaryAttempts.simps) (simp add: Let_def)
      show ?thesis
      proof (rule later[OF r])
        show "\<not> triggersFallback ?resp" "pageOf ?resp = None"
          using HttpError False by (simp_all add: triggersFallback_def pageOf_def)
      qed
    qed
  next
    case (HttpOk body)
    show ?thesis
    proof (cases "errors body \<noteq> []")
      case True
      show ?thesis
      proof (cases "isInternalError (errors body)")
        case internal: True
        with less.prems HttpOk p True have "out = PrimaryTriggersFallback" "st' = ?st1"
          by (subst (asm) primaryAttempts.simps, simp add: Let_def)+
        then have "out = PrimaryTriggersFallback" "st' = ?st1" by simp_all
        moreover have "primary_result ?resp (a + 1) PrimaryTriggersFallback"
          using HttpOk True internal by (simp add: primary_result_def triggersFallback_def)
        ultimately show ?thesis by (rule now)
      next
        case False
        with less.prems HttpOk p True
        have r: "primaryAttempts env u c (a + 1) ?st1 = (out, st')"
          by (subst (asm) primaryAttempts.simps) (simp add: Let_def)
        show ?thesis
        proof (rule later[OF r])
          show "\<not> triggersFallback ?resp" "pageOf ?resp = None"
            using HttpOk True False by (simp_all add: triggersFallback_def pageOf_def)
        qed
      qed
    next
      case noerr: False
      show ?thesis
      proof (cases "transactions body")
        case (Some pg)
        with less.prems HttpOk p noerr have "out = PrimaryData pg" "st' = ?st1"
          by (subst (asm) primaryAttempts.simps, simp add: Let_def)+
        then have "out = PrimaryData pg" "st' = ?st1" by simp_all
        moreover have "primary_result ?resp (a + 1) (PrimaryData pg)"
          using HttpOk noerr Some by (simp add: primary_result_def triggersFallback_def pageOf_def)
        ultimately show ?thesis by (rule now)
      next
        case None
        with less.prems HttpOk p noerr
        have r: "primaryAttempts env u c (a + 1) ?st1 = (out, st')"
          by (subst (asm) primaryAttempts.simps) (simp add: Let_def)
        show ?thesis
        proof (rule later[OF r])
          show "\<not> triggersFallback ?resp" "pageOf ?resp = None"
            using HttpOk noerr None by (simp_all add: triggersFallback_def pageOf_def)
        qed
      qed
    qed
  qed
qed


lemma fallbackAttempts_trace:
  assumes "fallbackAttempts env u c a st = (out, st')" "a < MAX_API_CALL_ATTEMPTS"
  shows "\<exists>f. 1 \<le> f \<and> a + f \<le> MAX_API_CALL_ATTEMPTS
           \<and> requests st' = requests st @ replicate f (FallbackQuery u c)
           \<and> fallback_result (explorer env (length (requests st) + f - 1) (FallbackQuery u c))
                 (a + f) out"
  using assms
proof (induction "MAX_API_CALL_ATTEMPTS - a" arbitrary: a st out st' rule: less_induct)
  case less
  let ?Q = "FallbackQuery u c"
  let ?resp = "explorer env (length (requests st)) ?Q"
  let ?st1 = "st\<lparr>requests := requests st @ [?Q]\<rparr>"
  have p: "post env ?Q st = (?resp, ?st1)" by (simp add: post_def)
  show ?case
  proof (cases "pageOf ?resp")
    case (Some pg)
    then obtain body where b: "?resp = HttpOk body" "errors body = []" "transactions body = Some pg"
      by (auto simp: pageOf_def split: response.splits if_splits)
    with less.prems p have "out = Some pg" "st' = ?st1"
      by (subst (asm) fallbackAttempts.simps, simp add: Let_def)+
    then have "out = Some pg" "st' = ?st1" by simp_all
    with Some less.prems(2) show ?thesis
      by (intro exI[of _ 1]) (simp add: fallback_result_def)
  next
    case None
    have r: "fallbackAttempts env u c (a + 1) ?st1 = (out, st')"
    proof (cases ?resp)
      case (HttpError code)
      with less.prems p show ?thesis
        by (subst (asm) fallbackAttempts.simps) (simp add: Let_def)
    next
      case (HttpOk body)
      with None have "errors body \<noteq> [] \<or> transactions body = None"
        by (auto simp: pageOf_def split: if_splits)
      with HttpOk less.prems p show ?thesis
        by (subst (asm) fallbackAttempts.simps) (auto simp: Let_def split: if_splits)
    qed
    show ?thesis
    proof (cases "a + 1 < MAX_API_CALL_ATTEMPTS")
      case True
      have d: "MAX_API_CALL_ATTEMPTS - (a + 1) < MAX_API_CALL_ATTEMPTS - a"
        using less.prems(2) by simp
      from less.hyps[OF d r True] obtain f where
        ff: "1 \<le> f" "a + 1 + f \<le> MAX_API_CALL_ATTEMPTS"
            "requests st' = requests ?st1 @ replicate f ?Q"
            "fallback_result (explorer env (length (requests ?st1) + f - 1) ?Q) (a + 1 + f) out"
        by blast
      have "requests st' = requests st @ replicate (Suc f) ?Q"
        using ff(3) by simp
      moreover have "length (requests ?st1) + f - 1 = length (requests st) + Suc f - 1"
        using ff(1) by simp
      ultimately show ?thesis using ff
        by (intro exI[of _ "Suc f"]) (simp add: add.commute add.left_commute)
    next
      case False
      with less.prems(2) have m: "a + 1 = MAX_API_CALL_ATTEMPTS" by simp
      with r have "out = None" "st' = ?st1"
        by (simp_all add: fallbackAttempts.simps)
      with m None show ?thesis
        by (intro exI[of _ 1]) (simp add: fallback_result_def)
    qed
  qed
qed



subsection \<open>The next cursor\<close>

lemma post_requests: "post env q st = (resp, st1) \<Longrightarrow> requests st1 = requests st @ [q]"
  by (auto simp: post_def)

lemma scanEdges_primary_requests:
  "scanEdges env False user target after deadline es st = (r, st')
     \<Longrightarrow> requests st' = requests st"
proof (induction es arbitrary: st)
  case Nil
  then show ?case by simp
next
  case (Cons edge rest)
  then show ?case
    by (auto simp: resolveTimestamp_def Let_def split: option.splits if_splits prod.splits)
qed

lemma nextCursorAfter_primary_stop:
  "lastTxTimestampOnPage env pg = Some ts \<Longrightarrow> js_lt ts afterTimestamp
     \<Longrightarrow> nextCursorAfter env False afterTimestamp pg = None"
  by (auto simp: lastTxTimestampOnPage_def nextCursorAfter_def
           split: option.splits if_splits)

lemma nextCursorAfter_fallback:
  "nextCursorAfter env True afterTimestamp pg =
     (case pageInfo pg of
        None \<Rightarrow> None
      | Some info \<Rightarrow> if hasNextPage info \<and> truthy (endCursor info) then endCursor info else None)"
  by (auto simp: nextCursorAfter_def split: option.splits)

text \<open>
  What the loop does after a page: on the primary path it stops when the last edge of the
  page carries a timestamp below \<open>afterTimestamp\<close>; on the fallback path it goes on
  whenever the page announces a next one.
\<close>

lemma early_exit_tests_last_edge:
  "(fetchPage env user cursor st = (PageFetched False pg, st1)
      \<longrightarrow> scanEdges env False user target afterTimestamp deadline (edges pg) st1 = (r, st2)
      \<longrightarrow> lastTxTimestampOnPage env pg = Some ts \<longrightarrow> js_lt ts afterTimestamp
      \<longrightarrow> pageLoop env user target afterTimestamp deadline cursor st = Some (r, st2)
          \<and> requests st2 = requests st1)
   \<and> (fetchPage env user cursor st = (PageFetched True pg, st1)
      \<longrightarrow> scanEdges env True user target afterTimestamp deadline (edges pg) st1 = (None, st2)
      \<longrightarrow> pageInfo pg = Some info \<longrightarrow> hasNextPage info \<longrightarrow> endCursor info = Some c \<longrightarrow> c \<noteq> []
      \<longrightarrow> pageLoop env user target afterTimestamp deadline cursor st
          = pageLoop env user target afterTimestamp deadline (Some c) st2)"
proof (intro conjI impI)
  assume f: "fetchPage env user cursor st = (PageFetched False pg, st1)"
    and sc: "scanEdges env False user target afterTimestamp deadline (edges pg) st1 = (r, st2)"
    and l: "lastTxTimestampOnPage env pg = Some ts" "js_lt ts afterTimestamp"
  show "requests st2 = requests st1" using sc by (rule scanEdges_primary_requests)
  show "pageLoop env user target afterTimestamp deadline cursor st = Some (r, st2)"
    using f sc nextCursorAfter_primary_stop[OF l]
    by (subst pageLoop.simps) (simp split: option.splits)
next
  assume f: "fetchPage env user cursor st = (PageFetched True pg, st1)"
    and sc: "scanEdges env True user target afterTimestamp deadline (edges pg) st1 = (None, st2)"
    and i: "pageInfo pg = Some info" "hasNextPage info" "endCursor info = Some c" "c \<noteq> []"
  have "nextCursorAfter env True afterTimestamp pg = Some c"
    using i by (simp add: nextCursorAfter_fallback)
  with f sc show "pageLoop env user target afterTimestamp deadline cursor st
          = pageLoop env user target afterTimestamp deadline (Some c) st2"
    by (subst pageLoop.simps) simp
qed


section \<open>Properties of the scheduler\<close>

subsection \<open>The scheduler writes only the tasks it selected\<close>

lemma writes_only_refl [simp]: "writes_only U st st"
  by (simp add: writes_only_def)

lemma writes_only_tasks_eq: "tasks st' = tasks st \<Longrightarrow> writes_only U st st'"
  by (simp add: writes_only_def)

lemma writes_only_trans:
  "writes_only U st st1 \<Longrightarrow> writes_only V st1 st2 \<Longrightarrow> U \<subseteq> W \<Longrightarrow> V \<subseteq> W \<Longrightarrow> writes_only W st st2"
proof -
  assume a: "writes_only U st st1" "writes_only V st1 st2" "U \<subseteq> W" "V \<subseteq> W"
  have m: "map task_uid (tasks st1) = map task_uid (tasks st)"
    "map task_uid (tasks st2) = map task_uid (tasks st1)"
    using a by (simp_all add: writes_only_def)
  have len: "length (tasks st1) = length (tasks st)" using m(1) by (metis length_map)
  show ?thesis
    unfolding writes_only_def
  proof (intro conjI allI impI)
    show "map task_uid (tasks st2) = map task_uid (tasks st)" using m by simp
  next
    fix i assume i: "i < length (tasks st)" "task_uid (tasks st ! i) \<notin> W"
    have u1: "task_uid (tasks st1 ! i) = task_uid (tasks st ! i)"
      using m(1) i(1) len by (metis nth_map)
    have "tasks st1 ! i = tasks st ! i" using a(1,3) i by (auto simp: writes_only_def)
    moreover have "tasks st2 ! i = tasks st1 ! i"
      using a(2,4) i u1 len by (auto simp: writes_only_def)
    ultimately show "tasks st2 ! i = tasks st ! i" by simp
  qed
qed

lemma db_run_tasks:
  assumes "db_run env stmt eff st = (r, st')"
    and "\<And>k s x s'. eff k s = (x, s') \<Longrightarrow> tasks s' = tasks s"
  shows "tasks st' = tasks st"
  using assms
  by (auto simp: db_run_def Let_def split: option.splits prod.splits)

lemma updateProofTaskStatus_writes_only:
  "updateProofTaskStatus env u s d st = (r, st') \<Longrightarrow> writes_only {u} st st'"
  by (auto simp: updateProofTaskStatus_def db_run_def Let_def writes_only_def apply_status_def
           split: option.splits)

lemma updateProofTaskAttempts_writes_only:
  "updateProofTaskAttempts env u n st = (r, st') \<Longrightarrow> writes_only {u} st st'"
  by (auto simp: updateProofTaskAttempts_def db_run_def Let_def writes_only_def
           split: option.splits)

lemma read_clock_tasks: "read_clock env st = (n, st') \<Longrightarrow> tasks st' = tasks st"
  by (auto simp: read_clock_def)

lemma getWallet_tasks: "getWallet env tg st = (r, st') \<Longrightarrow> tasks st' = tasks st"
  by (auto simp: getWallet_def db_run_def Let_def split: option.splits)

lemma saveWalletLink_tasks: "saveWalletLink env tg w p raw st = (r, st') \<Longrightarrow> tasks st' = tasks st"
  by (auto simp: saveWalletLink_def db_run_def Let_def split: option.splits)

lemma findProcessableTasks_tasks:
  "findProcessableTasks env limit st = (r, st') \<Longrightarrow> tasks st' = tasks st"
  by (auto simp: findProcessableTasks_def read_clock_def db_run_def Let_def split: option.splits)

lemma getStuckAndExpiredTasks_tasks:
  "getStuckAndExpiredTasks env n st = (r, st') \<Longrightarrow> tasks st' = tasks st"
  by (auto simp: getStuckAndExpiredTasks_def db_run_def Let_def split: option.splits)

lemma reapLoop_writes_only:
  "reapLoop env ts st = (r, st') \<Longrightarrow> writes_only (task_uid ` set ts) st st'"
proof (induction ts arbitrary: st)
  case Nil
  then show ?case by simp
next
  case (Cons task rest)
  show ?case
  proof (cases "status task = Pending \<or> status task = Processing")
    case False
    with Cons.prems have "reapLoop env rest st = (r, st')" by simp
    from Cons.IH[OF this] show ?thesis
      by (rule writes_only_trans[OF writes_only_refl]) auto
  next
    case True
    obtain r1 st1 where u: "updateProofTaskStatus env (task_uid task) Expired
        (with_error ''Task auto-expired by cleanup.'') st = (r1, st1)"
      by (cases "updateProofTaskStatus env (task_uid task) Expired
        (with_error ''Task auto-expired by cleanup.'') st")
    have w1: "writes_only {task_uid task} st st1"
      using u by (rule updateProofTaskStatus_writes_only)
    show ?thesis
    proof (cases r1)
      case (Inl e)
      with Cons.prems True u have "st' = st1" by simp
      with w1 show ?thesis
        by (auto intro: writes_only_trans[OF _ writes_only_refl])
    next
      case (Inr x)
      with Cons.prems True u have "reapLoop env rest st1 = (r, st')" by simp
      from writes_only_trans[OF w1 Cons.IH[OF this]] show ?thesis by auto
    qed
  qed
qed


lemma writes_only_mono: "writes_only U st st' \<Longrightarrow> U \<subseteq> W \<Longrightarrow> writes_only W st st'"
  by (auto simp: writes_only_def)

lemma writes_only_cong:
  "tasks a' = tasks a \<Longrightarrow> tasks b' = tasks b \<Longrightarrow> writes_only U a b \<Longrightarrow> writes_only U a' b'"
  by (simp add: writes_only_def)

lemma checkAndDecide_writes_only:
  assumes "checkAndDecide env task n target st = Some (r, st')"
  shows "writes_only {task_uid task} st st'"
proof (cases "decryptWallet env (wallet_address_encrypted task) = []")
  case True
  with assms show ?thesis
    by (auto simp: checkAndDecide_def Let_def dest: updateProofTaskStatus_writes_only)
next
  case False
  let ?w = "decryptWallet env (wallet_address_encrypted task)"
  from assms False obtain pr net1 where
    c: "checkOwnershipAfter (chain env) ?w (after_timestamp task) (check_deadline_utc task)
          target (net st) = Some (pr, net1)"
    by (auto simp: checkAndDecide_def Let_def split: option.splits)
  let ?st1 = "st\<lparr>locator_calls := locator_calls st + 1, net := net1\<rparr>"
  have t1: "tasks ?st1 = tasks st" by simp
  show ?thesis
  proof (cases "isProofConfirmed pr")
    case True
    obtain r2 st2 where sv: "saveWalletLink env (telegram_id task) ?w True
        (Some (telegram_id task)) ?st1 = (r2, st2)"
      by (cases "saveWalletLink env (telegram_id task) ?w True (Some (telegram_id task)) ?st1")
    have t2: "tasks st2 = tasks st" using saveWalletLink_tasks[OF sv] by simp
    show ?thesis
    proof (cases r2)
      case (Inl e)
      with assms False c True sv have "st' = st2"
        by (auto simp: checkAndDecide_def Let_def)
      with t2 show ?thesis by (simp add: writes_only_tasks_eq)
    next
      case (Inr u)
      with assms False c True sv
      have "updateProofTaskStatus env (task_uid task) Success
              \<lparr>foundTxHash = txHash pr, errorMessage = None, lastCheckedBlock = None\<rparr> st2
            = (r, st')"
        by (auto simp: checkAndDecide_def Let_def)
      from updateProofTaskStatus_writes_only[OF this] t2 show ?thesis
        by (auto elim: writes_only_cong[rotated 2])
    qed
  next
    case nc: False
    let ?st2 = "?st1\<lparr>clock_reads := clock_reads ?st1 + 1\<rparr>"
    have rc: "read_clock env ?st1 = (clock env (clock_reads ?st1), ?st2)"
      by (simp add: read_clock_def)
    have t2: "tasks ?st2 = tasks st" by simp
    from assms False c nc rc
    have "(\<exists>s d. updateProofTaskStatus env (task_uid task) s d ?st2 = (r, st')) \<or> st' = ?st2"
      by (auto simp: checkAndDecide_def Let_def split: if_splits)
    then show ?thesis
    proof
      assume "\<exists>s d. updateProofTaskStatus env (task_uid task) s d ?st2 = (r, st')"
      then obtain s d where "updateProofTaskStatus env (task_uid task) s d ?st2 = (r, st')"
        by blast
      from updateProofTaskStatus_writes_only[OF this] t2 show ?thesis
        by (auto elim: writes_only_cong[rotated 2])
    next
      assume "st' = ?st2"
      then show ?thesis by (simp add: writes_only_tasks_eq)
    qed
  qed
qed

lemma processSingleTask_writes_only:
  assumes "processSingleTask env task st = Some (r, st')"
  shows "writes_only {task_uid task} st st'"
proof (cases "case CHECK_WALLET env of None \<Rightarrow> True | Some target \<Rightarrow> target = []")
  case True
  with assms show ?thesis
    by (auto simp: processSingleTask_def split: option.splits if_splits
             dest: updateProofTaskStatus_writes_only)
next
  case False
  then obtain target where tg: "CHECK_WALLET env = Some target" "target \<noteq> []"
    by (auto split: option.splits)
  obtain r1 st1 where u1: "updateProofTaskStatus env (task_uid task) Processing no_details st
      = (r1, st1)"
    by (cases "updateProofTaskStatus env (task_uid task) Processing no_details st")
  have w1: "writes_only {task_uid task} st st1"
    using u1 by (rule updateProofTaskStatus_writes_only)
  show ?thesis
  proof (cases r1)
    case (Inl e)
    with assms tg u1 have "st' = st1" by (simp add: processSingleTask_def)
    with w1 show ?thesis by simp
  next
    case (Inr u)
    obtain r2 st2 where u2: "updateProofTaskAttempts env (task_uid task) (attempts task + 1) st1
        = (r2, st2)"
      by (cases "updateProofTaskAttempts env (task_uid task) (attempts task + 1) st1")
    have w2: "writes_only {task_uid task} st st2"
      using writes_only_trans[OF w1 updateProofTaskAttempts_writes_only[OF u2]] by simp
    from assms tg u1 Inr u2 obtain r3 st3 where
      cd: "checkAndDecide env task (attempts task + 1) target st2 = Some (r3, st3)"
      by (auto simp: processSingleTask_def Let_def split: option.splits)
    have w3: "writes_only {task_uid task} st st3"
      using writes_only_trans[OF w2 checkAndDecide_writes_only[OF cd]] by simp
    show ?thesis
    proof (cases r3)
      case (Inr v)
      with assms tg u1 \<open>r1 = Inr u\<close> u2 cd have "st' = st3"
        by (simp add: processSingleTask_def Let_def)
      with w3 show ?thesis by simp
    next
      case (Inl msg)
      with assms tg u1 \<open>r1 = Inr u\<close> u2 cd
      have "updateProofTaskStatus env (task_uid task) Error (with_error msg) st3 = (r, st')"
        by (simp add: processSingleTask_def Let_def)
      from writes_only_trans[OF w3 updateProofTaskStatus_writes_only[OF this]]
      show ?thesis by simp
    qed
  qed
qed

lemma workLoop_writes_only:
  "workLoop env now ts st = Some (r, st') \<Longrightarrow> writes_only (task_uid ` set ts) st st'"
proof (induction ts arbitrary: st)
  case Nil
  then show ?case by simp
next
  case (Cons task rest)
  let ?U = "task_uid ` set (task # rest)"
  have step: "writes_only ?U st st'"
    if "writes_only {task_uid task} st s1" "workLoop env now rest s1 = Some (r, st')" for s1
    using writes_only_trans[OF that(1) Cons.IH[OF that(2)]] by auto
  have stop: "writes_only ?U st st'" if "writes_only {task_uid task} st s1" "st' = s1" for s1
    using that by (auto intro: writes_only_mono)
  show ?case
  proof (cases "check_deadline_utc task \<le> now")
    case True
    obtain r1 st1 where u: "updateProofTaskStatus env (task_uid task) Expired
        (with_error ''Deadline passed before processing attempt.'') st = (r1, st1)"
      by (cases "updateProofTaskStatus env (task_uid task) Expired
        (with_error ''Deadline passed before processing attempt.'') st")
    note w1 = updateProofTaskStatus_writes_only[OF u]
    show ?thesis
    proof (cases r1)
      case (Inl e)
      with Cons.prems True u have "st' = st1" by simp
      with w1 show ?thesis by (rule stop)
    next
      case (Inr x)
      with Cons.prems True u have "workLoop env now rest st1 = Some (r, st')" by simp
      with w1 show ?thesis by (rule step)
    qed
  next
    case False
    obtain rw stw where g: "getWallet env (telegram_id task) st = (rw, stw)"
      by (cases "getWallet env (telegram_id task) st")
    have tw: "tasks stw = tasks st" using g by (rule getWallet_tasks)
    have ww: "writes_only {task_uid task} st stw" using tw by (simp add: writes_only_tasks_eq)
    show ?thesis
    proof (cases rw)
      case (Inl e)
      with Cons.prems False g have "st' = stw" by simp
      with ww show ?thesis by (rule stop)
    next
      case (Inr link)
      show ?thesis
      proof (cases "case link of None \<Rightarrow> False | Some l \<Rightarrow> proofed l")
        case proofed: True
        then obtain l where l: "link = Some l" "proofed l" by (auto split: option.splits)
        obtain r2 st2 where u: "updateProofTaskStatus env (task_uid task) Success
            (with_error ''Wallet already proofed.'') stw = (r2, st2)"
          by (cases "updateProofTaskStatus env (task_uid task) Success
            (with_error ''Wallet already proofed.'') stw")
        have w2: "writes_only {task_uid task} st st2"
          using writes_only_trans[OF ww updateProofTaskStatus_writes_only[OF u]] by simp
        show ?thesis
        proof (cases r2)
          case (Inl e)
          with Cons.prems False g Inr l u have "st' = st2" by simp
          with w2 show ?thesis by (rule stop)
        next
          case r2ok: (Inr x)
          show ?thesis
          proof (cases "wallet l \<noteq> []")
            case False
            with Cons.prems \<open>\<not> check_deadline_utc task \<le> now\<close> g Inr l u r2ok
            have "workLoop env now rest st2 = Some (r, st')" by simp
            with w2 show ?thesis by (rule step)
          next
            case True
            obtain r3 st3 where sv: "saveWalletLink env (telegram_id task) (wallet l) True
                (Some (telegram_id task)) st2 = (r3, st3)"
              by (cases "saveWalletLink env (telegram_id task) (wallet l) True
                (Some (telegram_id task)) st2")
            have w3: "writes_only {task_uid task} st st3"
              using w2 saveWalletLink_tasks[OF sv] by (auto elim: writes_only_cong[rotated 2])
            show ?thesis
            proof (cases r3)
              case (Inl e)
              with Cons.prems \<open>\<not> check_deadline_utc task \<le> now\<close> g Inr l u r2ok True sv
              have "st' = st3" by simp
              with w3 show ?thesis by (rule stop)
            next
              case r3ok: (Inr y)
              with Cons.prems \<open>\<not> check_deadline_utc task \<le> now\<close> g Inr l u r2ok True sv
              have "workLoop env now rest st3 = Some (r, st')" by simp
              with w3 show ?thesis by (rule step)
            qed
          qed
        qed
      next
        case notproofed: False
        from Cons.prems \<open>\<not> check_deadline_utc task \<le> now\<close> g Inr notproofed
        obtain r2 st2 where ps: "processSingleTask env task stw = Some (r2, st2)"
          by (auto split: option.splits)
        have w2: "writes_only {task_uid task} st st2"
          using writes_only_trans[OF ww processSingleTask_writes_only[OF ps]] by simp
        show ?thesis
        proof (cases r2)
          case (Inl e)
          with Cons.prems \<open>\<not> check_deadline_utc task \<le> now\<close> g Inr notproofed ps
          have "st' = st2" by simp
          with w2 show ?thesis by (rule stop)
        next
          case r2ok: (Inr x)
          with Cons.prems \<open>\<not> check_deadline_utc task \<le> now\<close> g Inr notproofed ps
          have "workLoop env now rest st2 = Some (r, st')" by simp
          with w2 show ?thesis by (rule step)
        qed
      qed
    qed
  qed
qed


lemma updateProofTaskStatus_clock:
  "updateProofTaskStatus env u s d st = (r, st') \<Longrightarrow> clock_reads st' = clock_reads st"
  by (auto simp: updateProofTaskStatus_def db_run_def Let_def split: option.splits)

lemma reapLoop_clock:
  "reapLoop env ts st = (r, st') \<Longrightarrow> clock_reads st' = clock_reads st"
proof (induction ts arbitrary: st)
  case Nil
  then show ?case by simp
next
  case (Cons task rest)
  then show ?case
    by (auto split: if_splits prod.splits sum.splits dest!: updateProofTaskStatus_clock)
qed

lemma handleStuckOrExpiredTasks_clock:
  "clock_reads (handleStuckOrExpiredTasks env st)
     = (if isCleaningUp st then clock_reads st else clock_reads st + 1)"
  by (auto simp: handleStuckOrExpiredTasks_def reapBody_def read_clock_def
        getStuckAndExpiredTasks_def db_run_def Let_def
      split: prod.splits sum.splits option.splits dest!: reapLoop_clock)

lemma handleStuckOrExpiredTasks_writes_only:
  "writes_only (task_uid ` set (filter (\<lambda>t. selectable t
        \<and> check_deadline_utc t < clock env (clock_reads st)) (tasks st)))
     st (handleStuckOrExpiredTasks env st)"
proof (cases "isCleaningUp st")
  case True
  then show ?thesis by (simp add: handleStuckOrExpiredTasks_def)
next
  case False
  let ?st0 = "st\<lparr>isCleaningUp := True\<rparr>"
  let ?st1 = "?st0\<lparr>clock_reads := clock_reads ?st0 + 1\<rparr>"
  let ?now = "clock env (clock_reads st)"
  obtain r2 st2 where g: "getStuckAndExpiredTasks env ?now ?st1 = (r2, st2)"
    by (cases "getStuckAndExpiredTasks env ?now ?st1")
  have t2: "tasks st2 = tasks st" using getStuckAndExpiredTasks_tasks[OF g] by simp
  show ?thesis
  proof (cases r2)
    case (Inl e)
    with False g have "handleStuckOrExpiredTasks env st = st2\<lparr>isCleaningUp := False\<rparr>"
      by (simp add: handleStuckOrExpiredTasks_def reapBody_def read_clock_def)
    with t2 show ?thesis by (simp add: writes_only_tasks_eq)
  next
    case (Inr found)
    with g have f: "found = filter (\<lambda>t. selectable t \<and> check_deadline_utc t < ?now) (tasks st)"
      by (auto simp: getStuckAndExpiredTasks_def db_run_def Let_def selectable_def
               split: option.splits)
    obtain r3 st3 where l: "reapLoop env found st2 = (r3, st3)"
      by (cases "reapLoop env found st2")
    from False g Inr l
    have h: "handleStuckOrExpiredTasks env st = st3\<lparr>isCleaningUp := False\<rparr>"
      by (simp add: handleStuckOrExpiredTasks_def reapBody_def read_clock_def)
    have "writes_only (task_uid ` set found) st2 st3" using l by (rule reapLoop_writes_only)
    then have "writes_only (task_uid ` set found) st (st3\<lparr>isCleaningUp := False\<rparr>)"
      using t2 by (auto elim: writes_only_cong[rotated 2])
    with f h show ?thesis by simp
  qed
qed

lemma processPendingTasks_writes_only:
  assumes "processPendingTasks env st = Some st'"
  shows "writes_only (task_uid ` set (filter (\<lambda>t. selectable t
        \<and> check_deadline_utc t > clock env (clock_reads st + 1)) (tasks st))) st st'"
proof (cases "isProcessingCycle st")
  case True
  with assms show ?thesis by (simp add: processPendingTasks_def)
next
  case False
  let ?st0 = "st\<lparr>isProcessingCycle := True\<rparr>"
  let ?st1 = "?st0\<lparr>clock_reads := clock_reads ?st0 + 1\<rparr>"
  let ?now = "clock env (clock_reads st)"
  let ?nowUtc = "clock env (clock_reads st + 1)"
  let ?sel = "filter (\<lambda>t. selectable t \<and> check_deadline_utc t > ?nowUtc) (tasks st)"
  obtain r2 st2 where g: "findProcessableTasks env 10 ?st1 = (r2, st2)"
    by (cases "findProcessableTasks env 10 ?st1")
  have t2: "tasks st2 = tasks st" using findProcessableTasks_tasks[OF g] by simp
  show ?thesis
  proof (cases r2)
    case (Inl e)
    with False g assms have "st' = st2\<lparr>isProcessingCycle := False\<rparr>"
      by (auto simp: processPendingTasks_def workBody_def read_clock_def)
    with t2 show ?thesis by (simp add: writes_only_tasks_eq)
  next
    case (Inr batch)
    with g have f: "batch = take 10 (sort_key created_at ?sel)"
      by (auto simp: findProcessableTasks_def read_clock_def db_run_def Let_def selectable_def
               split: option.splits)
    have sub: "set batch \<subseteq> set ?sel"
      unfolding f using set_take_subset[of 10 "sort_key created_at ?sel"] by simp
    from False g Inr assms obtain r3 st3 where
      l: "workLoop env ?now batch st2 = Some (r3, st3)" and
      h: "st' = st3\<lparr>isProcessingCycle := False\<rparr>"
      by (auto simp: processPendingTasks_def workBody_def read_clock_def split: option.splits)
    have "writes_only (task_uid ` set batch) st2 st3" using l by (rule workLoop_writes_only)
    then have "writes_only (task_uid ` set batch) st st'"
      using t2 h by (auto elim: writes_only_cong[rotated 2])
    moreover have "task_uid ` set batch \<subseteq> task_uid ` set ?sel" using sub by auto
    ultimately show ?thesis by (rule writes_only_mono)
  qed
qed

lemma unselected_uid:
  assumes "distinct (map task_uid xs)" "i < length xs" "\<not> P (xs ! i)"
  shows "task_uid (xs ! i) \<notin> task_uid ` set (filter P xs)"
proof
  assume "task_uid (xs ! i) \<in> task_uid ` set (filter P xs)"
  then obtain t where t: "t \<in> set xs" "P t" "task_uid t = task_uid (xs ! i)" by auto
  have "inj_on task_uid (set xs)" using assms(1) by (simp add: distinct_map)
  moreover have "xs ! i \<in> set xs" using assms(2) by simp
  ultimately have "t = xs ! i" using t(1,3) by (auto dest: inj_onD)
  with t(2) assms(3) show False by simp
qed

lemma writes_only_row:
  "writes_only U st st' \<Longrightarrow> i < length (tasks st) \<Longrightarrow> task_uid (tasks st ! i) \<notin> U
     \<Longrightarrow> tasks st' ! i = tasks st ! i"
  by (simp add: writes_only_def)

lemma writes_only_uids:
  "writes_only U st st' \<Longrightarrow> map task_uid (tasks st') = map task_uid (tasks st)"
  by (simp add: writes_only_def)

lemma reap_keeps_row:
  assumes "distinct (map task_uid (tasks st))" "i < length (tasks st)"
    and "\<not> (selectable (tasks st ! i)
             \<and> check_deadline_utc (tasks st ! i) < clock env (clock_reads st))"
  shows "tasks (handleStuckOrExpiredTasks env st) ! i = tasks st ! i"
  using writes_only_row[OF handleStuckOrExpiredTasks_writes_only assms(2)]
        unselected_uid[OF assms(1,2), where P = "\<lambda>t. selectable t
             \<and> check_deadline_utc t < clock env (clock_reads st)"] assms(3)
  by blast

lemma work_keeps_row:
  assumes "processPendingTasks env st = Some st'"
    and "distinct (map task_uid (tasks st))" "i < length (tasks st)"
    and "\<not> (selectable (tasks st ! i)
             \<and> check_deadline_utc (tasks st ! i) > clock env (clock_reads st + 1))"
  shows "tasks st' ! i = tasks st ! i"
  using writes_only_row[OF processPendingTasks_writes_only[OF assms(1)] assms(3)]
        unselected_uid[OF assms(2,3), where P = "\<lambda>t. selectable t
             \<and> check_deadline_utc t > clock env (clock_reads st + 1)"] assms(4)
  by blast

lemma cycle_keeps_row:
  assumes c: "runFullCycle env st = Some st'"
    and d: "distinct (map task_uid (tasks st))" and i: "i < length (tasks st)"
    and nr: "\<not> (selectable (tasks st ! i)
             \<and> check_deadline_utc (tasks st ! i) < clock env (clock_reads st))"
    and nw: "\<not> (selectable (tasks st ! i)
             \<and> check_deadline_utc (tasks st ! i) > clock env (clock_reads st + 1))"
            "\<not> (selectable (tasks st ! i)
             \<and> check_deadline_utc (tasks st ! i) > clock env (clock_reads st + 2))"
  shows "tasks st' ! i = tasks st ! i \<and> map task_uid (tasks st') = map task_uid (tasks st)"
proof -
  let ?st1 = "handleStuckOrExpiredTasks env st"
  have u1: "map task_uid (tasks ?st1) = map task_uid (tasks st)"
    using handleStuckOrExpiredTasks_writes_only by (rule writes_only_uids)
  have r1: "tasks ?st1 ! i = tasks st ! i" using d i nr by (rule reap_keeps_row)
  have d1: "distinct (map task_uid (tasks ?st1))" using d u1 by simp
  have i1: "i < length (tasks ?st1)" using i u1 by (metis length_map)
  have p: "processPendingTasks env ?st1 = Some st'" using c by (simp add: runFullCycle_def)
  have n1: "\<not> (selectable (tasks ?st1 ! i)
             \<and> check_deadline_utc (tasks ?st1 ! i) > clock env (clock_reads ?st1 + 1))"
    using nw r1 by (auto simp: handleStuckOrExpiredTasks_clock)
  have "tasks st' ! i = tasks ?st1 ! i" using p d1 i1 n1 by (rule work_keeps_row)
  moreover have "map task_uid (tasks st') = map task_uid (tasks ?st1)"
    using processPendingTasks_writes_only[OF p] by (rule writes_only_uids)
  ultimately show ?thesis using r1 u1 by simp
qed



subsection \<open>The statements the scheduler runs\<close>

lemma appends_refl [simp]: "appends P st st"
  by (simp add: appends_def)

lemma appends_same: "statements st' = statements st \<Longrightarrow> appends P st st'"
  by (simp add: appends_def)

lemma appends_trans: "appends P st st1 \<Longrightarrow> appends P st1 st2 \<Longrightarrow> appends P st st2"
  by (auto simp: appends_def)

lemma appends_cong:
  "statements a' = statements a \<Longrightarrow> statements b' = statements b \<Longrightarrow> appends P a b
     \<Longrightarrow> appends P a' b'"
  by (simp add: appends_def)

lemma db_run_appends:
  assumes "db_run env stmt eff st = (r, st')" "P stmt"
    and "\<And>k s x s'. eff k s = (x, s') \<Longrightarrow> statements s' = statements s"
  shows "appends P st st'"
  using assms
  by (auto simp: db_run_def Let_def appends_def split: option.splits prod.splits
           intro!: exI[of _ "[stmt]"])

lemma updateProofTaskStatus_appends:
  "updateProofTaskStatus env u s d st = (r, st') \<Longrightarrow> P (UpdateStatus u s d) \<Longrightarrow> appends P st st'"
  unfolding updateProofTaskStatus_def by (erule db_run_appends) auto

lemma updateProofTaskAttempts_appends:
  "updateProofTaskAttempts env u n st = (r, st') \<Longrightarrow> P (UpdateAttempts u n) \<Longrightarrow> appends P st st'"
  unfolding updateProofTaskAttempts_def by (erule db_run_appends) auto

lemma getWallet_appends:
  "getWallet env tg st = (r, st') \<Longrightarrow> P (SelectWallet (hashTelegramId env tg)) \<Longrightarrow> appends P st st'"
  unfolding getWallet_def Let_def by (erule db_run_appends) auto

lemma saveWalletLink_appends:
  "saveWalletLink env tg w p raw st = (r, st')
     \<Longrightarrow> P (UpsertWallet (hashTelegramId env tg) (toLowerCase w) p) \<Longrightarrow> appends P st st'"
  unfolding saveWalletLink_def Let_def by (erule db_run_appends) auto

lemma findProcessableTasks_appends:
  "findProcessableTasks env limit st = (r, st')
     \<Longrightarrow> P (SelectProcessable (clock env (clock_reads st)) limit) \<Longrightarrow> appends P st st'"
  unfolding findProcessableTasks_def read_clock_def
  by (auto dest!: db_run_appends[where P = P] elim: appends_cong[rotated 2])

lemma getStuckAndExpiredTasks_appends:
  "getStuckAndExpiredTasks env n st = (r, st') \<Longrightarrow> P (SelectStuckAndExpired n) \<Longrightarrow> appends P st st'"
  unfolding getStuckAndExpiredTasks_def by (erule db_run_appends) auto

lemma message_allowed_simps [simp]:
  "message_allowed (SelectStuckAndExpired n)"
  "message_allowed (SelectProcessable n l)"
  "message_allowed (UpdateAttempts u a)"
  "message_allowed (SelectWallet h)"
  "message_allowed (UpsertWallet h w p)"
  "message_allowed (UpdateStatus u Error d)"
  "message_allowed (UpdateStatus u Expired d)"
  "message_allowed (UpdateStatus u Failed_no_tx d)"
  "message_allowed (UpdateStatus u s no_details)"
  "message_allowed (UpdateStatus u s \<lparr>foundTxHash = h', errorMessage = None, lastCheckedBlock = b\<rparr>)"
  "message_allowed (UpdateStatus u Success (with_error ''Wallet already proofed.''))"
  by (auto simp: message_allowed_def no_details_def with_error_def split: option.splits)

lemma reapLoop_appends:
  "reapLoop env ts st = (r, st') \<Longrightarrow> appends message_allowed st st'"
proof (induction ts arbitrary: st)
  case Nil
  then show ?case by simp
next
  case (Cons task rest)
  then show ?case
    by (auto split: if_splits prod.splits sum.splits
             dest!: updateProofTaskStatus_appends[where P = message_allowed]
             intro: appends_trans)
qed

lemma appends_update [simp]:
  "appends P (st\<lparr>isCleaningUp := b\<rparr>) s = appends P st s"
  "appends P s (st\<lparr>isCleaningUp := b\<rparr>) = appends P s st"
  "appends P (st\<lparr>isProcessingCycle := b\<rparr>) s = appends P st s"
  "appends P s (st\<lparr>isProcessingCycle := b\<rparr>) = appends P s st"
  "appends P (st\<lparr>clock_reads := c\<rparr>) s = appends P st s"
  "appends P s (st\<lparr>clock_reads := c\<rparr>) = appends P s st"
  "appends P (st\<lparr>locator_calls := l\<rparr>) s = appends P st s"
  "appends P s (st\<lparr>locator_calls := l\<rparr>) = appends P s st"
  "appends P (st\<lparr>net := n\<rparr>) s = appends P st s"
  "appends P s (st\<lparr>net := n\<rparr>) = appends P s st"
  by (simp_all add: appends_def)

lemma handleStuckOrExpiredTasks_appends:
  "appends message_allowed st (handleStuckOrExpiredTasks env st)"
proof (cases "isCleaningUp st")
  case True
  then show ?thesis by (simp add: handleStuckOrExpiredTasks_def)
next
  case False
  let ?st1 = "st\<lparr>isCleaningUp := True, clock_reads := clock_reads st + 1\<rparr>"
  obtain r2 st2 where g: "getStuckAndExpiredTasks env (clock env (clock_reads st)) ?st1 = (r2, st2)"
    by (cases "getStuckAndExpiredTasks env (clock env (clock_reads st)) ?st1")
  have a2: "appends message_allowed st st2"
    using getStuckAndExpiredTasks_appends[OF g, of message_allowed] by simp
  show ?thesis
  proof (cases r2)
    case (Inl e)
    with False g a2 show ?thesis
      by (simp add: handleStuckOrExpiredTasks_def reapBody_def read_clock_def)
  next
    case (Inr found)
    obtain r3 st3 where l: "reapLoop env found st2 = (r3, st3)"
      by (cases "reapLoop env found st2")
    from appends_trans[OF a2 reapLoop_appends[OF l]] False g Inr l show ?thesis
      by (simp add: handleStuckOrExpiredTasks_def reapBody_def read_clock_def)
  qed
qed

lemma checkAndDecide_appends:
  assumes "checkAndDecide env task n target st = Some (r, st')"
  shows "appends message_allowed st st'"
  using assms
  by (auto simp: checkAndDecide_def Let_def read_clock_def
           split: if_splits option.splits prod.splits sum.splits
           dest!: updateProofTaskStatus_appends[where P = message_allowed]
                  saveWalletLink_appends[where P = message_allowed]
           intro: appends_trans)

lemma processSingleTask_appends:
  assumes "processSingleTask env task st = Some (r, st')"
  shows "appends message_allowed st st'"
  using assms
  by (auto simp: processSingleTask_def Let_def
           split: if_splits option.splits prod.splits sum.splits
           dest!: updateProofTaskStatus_appends[where P = message_allowed]
                  updateProofTaskAttempts_appends[where P = message_allowed]
                  checkAndDecide_appends
           intro: appends_trans)

lemma workLoop_appends:
  "workLoop env now ts st = Some (r, st') \<Longrightarrow> appends message_allowed st st'"
proof (induction ts arbitrary: st)
  case Nil
  then show ?case by simp
next
  case (Cons task rest)
  then show ?case
    by (auto split: if_splits option.splits prod.splits sum.splits
             dest!: updateProofTaskStatus_appends[where P = message_allowed]
                    getWallet_appends[where P = message_allowed]
                    saveWalletLink_appends[where P = message_allowed]
                    processSingleTask_appends
             intro: appends_trans)
qed


lemma processPendingTasks_appends:
  assumes "processPendingTasks env st = Some st'"
  shows "appends message_allowed st st'"
proof (cases "isProcessingCycle st")
  case True
  with assms show ?thesis by (simp add: processPendingTasks_def)
next
  case False
  let ?st1 = "st\<lparr>isProcessingCycle := True, clock_reads := clock_reads st + 1\<rparr>"
  obtain r2 st2 where g: "findProcessableTasks env 10 ?st1 = (r2, st2)"
    by (cases "findProcessableTasks env 10 ?st1")
  have a2: "appends message_allowed st st2"
    using findProcessableTasks_appends[OF g, of message_allowed] by simp
  show ?thesis
  proof (cases r2)
    case (Inl e)
    with False g a2 assms show ?thesis
      by (auto simp: processPendingTasks_def workBody_def read_clock_def)
  next
    case (Inr batch)
    with False g assms obtain r3 st3 where
      l: "workLoop env (clock env (clock_reads st)) batch st2 = Some (r3, st3)" and
      h: "st' = st3\<lparr>isProcessingCycle := False\<rparr>"
      by (auto simp: processPendingTasks_def workBody_def read_clock_def split: option.splits)
    from appends_trans[OF a2 workLoop_appends[OF l]] h show ?thesis by simp
  qed
qed



subsection \<open>Running a statement\<close>

lemma max_retry_message_differs:
  "''Deadline passed, proof not found.'' \<noteq> max_retry_message n"
  by (simp add: max_retry_message_def)

lemma db_run_ok:
  "db_fault env (length (statements st)) = None \<Longrightarrow>
   db_run env stmt eff st
     = (case eff (length (statements st)) (st\<lparr>statements := statements st @ [stmt]\<rparr>) of
          (r, st2) \<Rightarrow> (Inr r, st2))"
  by (simp add: db_run_def Let_def)

lemma db_run_raises:
  "db_fault env (length (statements st)) = Some msg \<Longrightarrow>
   db_run env stmt eff st = (Inl msg, st\<lparr>statements := statements st @ [stmt]\<rparr>)"
  by (simp add: db_run_def Let_def)



subsection \<open>Lemmas on the attempts counter\<close>

lemma attempts_kept_refl [simp]: "attempts_kept st st"
  by (simp add: attempts_kept_def)

lemma attempts_kept_trans: "attempts_kept st s1 \<Longrightarrow> attempts_kept s1 s2 \<Longrightarrow> attempts_kept st s2"
  by (simp add: attempts_kept_def)

lemma attempts_kept_step: "attempts_kept st st' \<Longrightarrow> attempts_step u a st st'"
proof -
  assume k: "attempts_kept st st'"
  then have "attempts (tasks st' ! j) = attempts (tasks st ! j)" if "j < length (tasks st)" for j
    using that by (metis attempts_kept_def length_map nth_map)
  with k show ?thesis by (simp add: attempts_step_def attempts_kept_def)
qed

lemma attempts_kept_update [simp]:
  "attempts_kept (st\<lparr>isCleaningUp := b\<rparr>) s = attempts_kept st s"
  "attempts_kept s (st\<lparr>isCleaningUp := b\<rparr>) = attempts_kept s st"
  "attempts_kept (st\<lparr>isProcessingCycle := b\<rparr>) s = attempts_kept st s"
  "attempts_kept s (st\<lparr>isProcessingCycle := b\<rparr>) = attempts_kept s st"
  "attempts_kept (st\<lparr>clock_reads := c\<rparr>) s = attempts_kept st s"
  "attempts_kept s (st\<lparr>clock_reads := c\<rparr>) = attempts_kept s st"
  "attempts_kept (st\<lparr>net := n\<rparr>) s = attempts_kept st s"
  "attempts_kept s (st\<lparr>net := n\<rparr>) = attempts_kept s st"
  by (simp_all add: attempts_kept_def)

lemma db_run_attempts_kept:
  assumes "db_run env stmt eff st = (r, st')"
    and "\<And>k s x s'. eff k s = (x, s') \<Longrightarrow> attempts_kept s s'"
  shows "attempts_kept st st'"
  using assms
  by (fastforce simp: db_run_def Let_def attempts_kept_def split: option.splits prod.splits)

lemma updateProofTaskStatus_attempts_kept:
  "updateProofTaskStatus env u s d st = (r, st') \<Longrightarrow> attempts_kept st st'"
  unfolding updateProofTaskStatus_def
  by (erule db_run_attempts_kept) (auto simp: attempts_kept_def apply_status_def)

lemma getWallet_attempts_kept: "getWallet env tg st = (r, st') \<Longrightarrow> attempts_kept st st'"
  unfolding getWallet_def Let_def
  by (erule db_run_attempts_kept) (auto simp: attempts_kept_def)

lemma saveWalletLink_attempts_kept:
  "saveWalletLink env tg w p raw st = (r, st') \<Longrightarrow> attempts_kept st st'"
  unfolding saveWalletLink_def Let_def
  by (erule db_run_attempts_kept) (auto simp: attempts_kept_def)

lemma findProcessableTasks_attempts_kept:
  "findProcessableTasks env limit st = (r, st') \<Longrightarrow> attempts_kept st st'"
  unfolding findProcessableTasks_def read_clock_def
  by (auto dest!: db_run_attempts_kept simp: attempts_kept_def)

lemma getStuckAndExpiredTasks_attempts_kept:
  "getStuckAndExpiredTasks env n st = (r, st') \<Longrightarrow> attempts_kept st st'"
  unfolding getStuckAndExpiredTasks_def
  by (erule db_run_attempts_kept) (auto simp: attempts_kept_def)

lemma reapLoop_attempts_kept: "reapLoop env ts st = (r, st') \<Longrightarrow> attempts_kept st st'"
proof (induction ts arbitrary: st)
  case Nil
  then show ?case by simp
next
  case (Cons task rest)
  then show ?case
    by (auto split: if_splits prod.splits sum.splits
             dest!: updateProofTaskStatus_attempts_kept intro: attempts_kept_trans)
qed

lemma handleStuckOrExpiredTasks_attempts_kept:
  "attempts_kept st (handleStuckOrExpiredTasks env st)"
proof (cases "isCleaningUp st")
  case True
  then show ?thesis by (simp add: handleStuckOrExpiredTasks_def)
next
  case False
  let ?st1 = "st\<lparr>isCleaningUp := True, clock_reads := clock_reads st + 1\<rparr>"
  obtain r2 st2 where g: "getStuckAndExpiredTasks env (clock env (clock_reads st)) ?st1 = (r2, st2)"
    by (cases "getStuckAndExpiredTasks env (clock env (clock_reads st)) ?st1")
  have a2: "attempts_kept st st2"
    using getStuckAndExpiredTasks_attempts_kept[OF g] by simp
  show ?thesis
  proof (cases r2)
    case (Inl e)
    with False g a2 show ?thesis
      by (simp add: handleStuckOrExpiredTasks_def reapBody_def read_clock_def)
  next
    case (Inr found)
    obtain r3 st3 where l: "reapLoop env found st2 = (r3, st3)"
      by (cases "reapLoop env found st2")
    from attempts_kept_trans[OF a2 reapLoop_attempts_kept[OF l]] False g Inr l show ?thesis
      by (simp add: handleStuckOrExpiredTasks_def reapBody_def read_clock_def)
  qed
qed

lemma checkAndDecide_attempts:
  assumes "checkAndDecide env task n target st = Some (r, st')"
  shows "map task_uid (tasks st') = map task_uid (tasks st)
       \<and> map attempts (tasks st') = map attempts (tasks st)
       \<and> locator_calls st' = locator_calls st
            + (if decryptWallet env (wallet_address_encrypted task) = [] then 0 else 1)"
  using assms
  by (auto simp: checkAndDecide_def Let_def read_clock_def attempts_kept_def
           split: if_splits option.splits prod.splits sum.splits
           dest!: updateProofTaskStatus_attempts_kept saveWalletLink_attempts_kept)

lemma updateProofTaskAttempts_rows:
  assumes "updateProofTaskAttempts env u n st = (r, st')"
  shows "map task_uid (tasks st') = map task_uid (tasks st)
       \<and> locator_calls st' = locator_calls st
       \<and> length (statements st') = length (statements st) + 1
       \<and> (\<forall>j < length (tasks st). attempts (tasks st' ! j)
             = (if task_uid (tasks st ! j) = u \<and> db_fault env (length (statements st)) = None
                then n else attempts (tasks st ! j)))"
  using assms
  by (auto simp: updateProofTaskAttempts_def db_run_def Let_def split: option.splits)


lemma map_eq_nth:
  "map f xs = map f ys \<Longrightarrow> j < length ys \<Longrightarrow> f (xs ! j) = f (ys ! j)"
  by (metis length_map nth_map)

lemma map_eq_length: "map f xs = map f ys \<Longrightarrow> length xs = length ys"
  by (metis length_map)

lemma updateProofTaskStatus_statements:
  "updateProofTaskStatus env u s d st = (r, st')
     \<Longrightarrow> length (statements st') = length (statements st) + 1"
  by (auto simp: updateProofTaskStatus_def db_run_def Let_def split: option.splits)

lemma processSingleTask_attempts:
  assumes "processSingleTask env task st = Some (r, st')"
  shows "map task_uid (tasks st') = map task_uid (tasks st)
     \<and> (locator_calls st' = locator_calls st \<or> locator_calls st' = locator_calls st + 1)
     \<and> (\<forall>j < length (tasks st).
           attempts (tasks st' ! j) = attempts (tasks st ! j)
           \<or> (task_uid (tasks st ! j) = task_uid task
               \<and> attempts (tasks st' ! j) = attempts task + 1))
     \<and> (locator_calls st' = locator_calls st + 1 \<longrightarrow>
          (\<forall>j < length (tasks st). task_uid (tasks st ! j) = task_uid task \<longrightarrow>
             attempts (tasks st' ! j)
               = (if db_fault env (length (statements st) + 1) = None
                  then attempts task + 1 else attempts (tasks st ! j))))"
proof -
  have kept: ?thesis if "attempts_kept st st'"
  proof -
    from that have "attempts (tasks st' ! j) = attempts (tasks st ! j)"
      if "j < length (tasks st)" for j
      using that by (auto simp: attempts_kept_def dest: map_eq_nth)
    with that show ?thesis by (simp add: attempts_kept_def)
  qed
  show ?thesis
  proof (cases "case CHECK_WALLET env of None \<Rightarrow> True | Some target \<Rightarrow> target = []")
    case True
    with assms have "attempts_kept st st'"
      by (auto simp: processSingleTask_def split: option.splits if_splits
               dest: updateProofTaskStatus_attempts_kept)
    then show ?thesis by (rule kept)
  next
    case False
    then obtain target where tg: "CHECK_WALLET env = Some target" "target \<noteq> []"
      by (auto split: option.splits)
    obtain r1 st1 where u1: "updateProofTaskStatus env (task_uid task) Processing no_details st
        = (r1, st1)"
      by (cases "updateProofTaskStatus env (task_uid task) Processing no_details st")
    note k1 = updateProofTaskStatus_attempts_kept[OF u1]
    note l1 = updateProofTaskStatus_statements[OF u1]
    show ?thesis
    proof (cases r1)
      case (Inl e)
      with assms tg u1 have "st' = st1" by (simp add: processSingleTask_def)
      with k1 have "attempts_kept st st'" by simp
      then show ?thesis by (rule kept)
    next
      case (Inr u)
      obtain r2 st2 where u2: "updateProofTaskAttempts env (task_uid task) (attempts task + 1) st1
          = (r2, st2)"
        by (cases "updateProofTaskAttempts env (task_uid task) (attempts task + 1) st1")
      note a2 = updateProofTaskAttempts_rows[OF u2]
      from assms tg u1 Inr u2 obtain r3 st3 where
        cd: "checkAndDecide env task (attempts task + 1) target st2 = Some (r3, st3)"
        by (auto simp: processSingleTask_def Let_def split: option.splits)
      note a3 = checkAndDecide_attempts[OF cd]
      have fin: "attempts_kept st3 st'"
      proof (cases r3)
        case (Inr v)
        with assms tg u1 \<open>r1 = Inr u\<close> u2 cd have "st' = st3"
          by (simp add: processSingleTask_def Let_def)
        then show ?thesis by simp
      next
        case (Inl msg)
        with assms tg u1 \<open>r1 = Inr u\<close> u2 cd
        have "updateProofTaskStatus env (task_uid task) Error (with_error msg) st3 = (r, st')"
          by (simp add: processSingleTask_def Let_def)
        then show ?thesis by (rule updateProofTaskStatus_attempts_kept)
      qed
      have len: "length (tasks st1) = length (tasks st)"
        using k1 by (auto simp: attempts_kept_def dest: map_eq_length)
      have uids: "map task_uid (tasks st') = map task_uid (tasks st)"
        using k1 a2 a3 fin by (simp add: attempts_kept_def)
      have lc: "locator_calls st' = locator_calls st
            + (if decryptWallet env (wallet_address_encrypted task) = [] then 0 else 1)"
        using k1 a2 a3 fin by (simp add: attempts_kept_def)
      have row: "attempts (tasks st' ! j)
             = (if task_uid (tasks st ! j) = task_uid task
                   \<and> db_fault env (length (statements st) + 1) = None
                then attempts task + 1 else attempts (tasks st ! j))"
        if j: "j < length (tasks st)" for j
      proof -
        have j1: "j < length (tasks st1)" using j len by simp
        have l2: "length (tasks st2) = length (tasks st1)"
          using a2 by (auto dest: map_eq_length)
        have l3: "length (tasks st3) = length (tasks st2)"
          using a3 by (auto dest: map_eq_length)
        have m': "map attempts (tasks st') = map attempts (tasks st3)"
          using fin by (simp add: attempts_kept_def)
        have m3: "map attempts (tasks st3) = map attempts (tasks st2)"
          using a3 by simp
        have "attempts (tasks st' ! j) = attempts (tasks st3 ! j)"
          using map_eq_nth[OF m'] j1 l2 l3 by simp
        also have "\<dots> = attempts (tasks st2 ! j)"
          using map_eq_nth[OF m3] j1 l2 by simp
        also have "\<dots> = (if task_uid (tasks st1 ! j) = task_uid task
                   \<and> db_fault env (length (statements st1)) = None
                then attempts task + 1 else attempts (tasks st1 ! j))"
          using a2 j1 by simp
        also have "task_uid (tasks st1 ! j) = task_uid (tasks st ! j)"
          using k1 j by (auto simp: attempts_kept_def dest: map_eq_nth)
        also have "attempts (tasks st1 ! j) = attempts (tasks st ! j)"
          using k1 j by (auto simp: attempts_kept_def dest: map_eq_nth)
        finally show ?thesis using l1 by simp
      qed
      show ?thesis using uids lc row by auto
    qed
  qed
qed


lemma attempts_kept_then_step:
  "attempts_kept st s \<Longrightarrow> attempts_step u a s s' \<Longrightarrow> attempts_step u a st s'"
proof -
  assume k: "attempts_kept st s" and t: "attempts_step u a s s'"
  have len: "length (tasks s) = length (tasks st)"
    using k by (auto simp: attempts_kept_def dest: map_eq_length)
  have "attempts (tasks s ! j) = attempts (tasks st ! j)
        \<and> task_uid (tasks s ! j) = task_uid (tasks st ! j)" if "j < length (tasks st)" for j
    using k that by (auto simp: attempts_kept_def dest: map_eq_nth)
  with k t len show ?thesis by (auto simp: attempts_step_def attempts_kept_def)
qed

lemma processSingleTask_attempts_step:
  "processSingleTask env task st = Some (r, st')
     \<Longrightarrow> attempts_step (task_uid task) (attempts task) st st'"
  using processSingleTask_attempts[of env task st r st'] by (simp add: attempts_step_def)

lemma workLoop_head:
  assumes w: "workLoop env now (task # rest) st = Some (r, st')"
  shows "\<exists>s1. writes_only {task_uid task} st s1
            \<and> attempts_step (task_uid task) (attempts task) st s1
            \<and> (st' = s1 \<or> workLoop env now rest s1 = Some (r, st'))"
proof -
  let ?u = "task_uid task"
  have leaf: ?thesis
    if "writes_only {?u} st s1" "attempts_step ?u (attempts task) st s1"
       "st' = s1 \<or> workLoop env now rest s1 = Some (r, st')" for s1
    using that by blast
  have kleaf: ?thesis
    if "writes_only {?u} st s1" "attempts_kept st s1"
       "st' = s1 \<or> workLoop env now rest s1 = Some (r, st')" for s1
    using that by (blast intro: leaf attempts_kept_step)
  show ?thesis
  proof (cases "check_deadline_utc task \<le> now")
    case True
    obtain r1 st1 where u: "updateProofTaskStatus env ?u Expired
        (with_error ''Deadline passed before processing attempt.'') st = (r1, st1)"
      by (cases "updateProofTaskStatus env ?u Expired
        (with_error ''Deadline passed before processing attempt.'') st")
    from w True u have "st' = st1 \<or> workLoop env now rest st1 = Some (r, st')"
      by (cases r1) auto
    with updateProofTaskStatus_writes_only[OF u] updateProofTaskStatus_attempts_kept[OF u]
    show ?thesis by (rule kleaf)
  next
    case False
    obtain rw stw where g: "getWallet env (telegram_id task) st = (rw, stw)"
      by (cases "getWallet env (telegram_id task) st")
    have ww: "writes_only {?u} st stw"
      using getWallet_tasks[OF g] by (simp add: writes_only_tasks_eq)
    note kw = getWallet_attempts_kept[OF g]
    show ?thesis
    proof (cases rw)
      case (Inl e)
      with w False g have "st' = stw" by simp
      with ww kw show ?thesis by (intro kleaf[of stw]) simp_all
    next
      case (Inr link)
      show ?thesis
      proof (cases "case link of None \<Rightarrow> False | Some l \<Rightarrow> proofed l")
        case proofed: True
        then obtain l where l: "link = Some l" "proofed l" by (auto split: option.splits)
        obtain r2 st2 where u: "updateProofTaskStatus env ?u Success
            (with_error ''Wallet already proofed.'') stw = (r2, st2)"
          by (cases "updateProofTaskStatus env ?u Success
            (with_error ''Wallet already proofed.'') stw")
        have w2: "writes_only {?u} st st2"
          using writes_only_trans[OF ww updateProofTaskStatus_writes_only[OF u]] by simp
        have k2: "attempts_kept st st2"
          using attempts_kept_trans[OF kw updateProofTaskStatus_attempts_kept[OF u]] .
        show ?thesis
        proof (cases "\<exists>x. r2 = Inr x \<and> wallet l \<noteq> []")
          case False
          with w \<open>\<not> check_deadline_utc task \<le> now\<close> g Inr l u
          have "st' = st2 \<or> workLoop env now rest st2 = Some (r, st')"
            by (cases r2) auto
          with w2 k2 show ?thesis by (rule kleaf)
        next
          case True
          obtain r3 st3 where sv: "saveWalletLink env (telegram_id task) (wallet l) True
              (Some (telegram_id task)) st2 = (r3, st3)"
            by (cases "saveWalletLink env (telegram_id task) (wallet l) True
              (Some (telegram_id task)) st2")
          have w3: "writes_only {?u} st st3"
            using w2 saveWalletLink_tasks[OF sv] by (auto elim: writes_only_cong[rotated 2])
          have k3: "attempts_kept st st3"
            using attempts_kept_trans[OF k2 saveWalletLink_attempts_kept[OF sv]] .
          from w \<open>\<not> check_deadline_utc task \<le> now\<close> g Inr l u True sv
          have "st' = st3 \<or> workLoop env now rest st3 = Some (r, st')"
            by (cases r3) auto
          with w3 k3 show ?thesis by (rule kleaf)
        qed
      next
        case notproofed: False
        from w \<open>\<not> check_deadline_utc task \<le> now\<close> g Inr notproofed
        obtain r2 st2 where ps: "processSingleTask env task stw = Some (r2, st2)"
          by (auto split: option.splits)
        have w2: "writes_only {?u} st st2"
          using writes_only_trans[OF ww processSingleTask_writes_only[OF ps]] by simp
        have k2: "attempts_step ?u (attempts task) st st2"
          using attempts_kept_then_step[OF kw processSingleTask_attempts_step[OF ps]] .
        from w \<open>\<not> check_deadline_utc task \<le> now\<close> g Inr notproofed ps
        have "st' = st2 \<or> workLoop env now rest st2 = Some (r, st')"
          by (cases r2) auto
        with w2 k2 show ?thesis by (rule leaf)
      qed
    qed
  qed
qed

lemma workLoop_attempts_grow:
  assumes "workLoop env now ts st = Some (r, st')"
    and "distinct (map task_uid ts)"
    and "\<forall>t \<in> set ts. \<forall>j < length (tasks st).
           task_uid (tasks st ! j) = task_uid t \<longrightarrow> attempts (tasks st ! j) = attempts t"
  shows "attempts_grow st st'"
  using assms
proof (induction ts arbitrary: st)
  case Nil
  then show ?case by (simp add: attempts_grow_def)
next
  case (Cons task rest)
  from workLoop_head[OF Cons.prems(1)] obtain s1 where
    w1: "writes_only {task_uid task} st s1" and
    a1: "attempts_step (task_uid task) (attempts task) st s1" and
    c: "st' = s1 \<or> workLoop env now rest s1 = Some (r, st')"
    by blast
  have len: "length (tasks s1) = length (tasks st)"
    using a1 by (auto simp: attempts_step_def dest: map_eq_length)
  have head: "attempts (tasks st ! j) = attempts task"
    if "j < length (tasks st)" "task_uid (tasks st ! j) = task_uid task" for j
    using Cons.prems(3) that by simp
  have g1: "attempts_grow st s1"
    unfolding attempts_grow_def
  proof (intro allI impI)
    fix j assume j: "j < length (tasks st)"
    from a1 j have "attempts (tasks s1 ! j) = attempts (tasks st ! j)
        \<or> (task_uid (tasks st ! j) = task_uid task \<and> attempts (tasks s1 ! j) = attempts task + 1)"
      by (simp add: attempts_step_def)
    with head[OF j]
    show "attempts (tasks st ! j) \<le> attempts (tasks s1 ! j)
        \<and> attempts (tasks s1 ! j) \<le> attempts (tasks st ! j) + 1"
      by auto
  qed
  from c show ?case
  proof
    assume "st' = s1"
    with g1 show ?thesis by simp
  next
    assume r: "workLoop env now rest s1 = Some (r, st')"
    have d: "distinct (map task_uid rest)" "task_uid task \<notin> task_uid ` set rest"
      using Cons.prems(2) by auto
    have inv: "\<forall>t \<in> set rest. \<forall>j < length (tasks s1).
           task_uid (tasks s1 ! j) = task_uid t \<longrightarrow> attempts (tasks s1 ! j) = attempts t"
    proof (intro ballI allI impI)
      fix t j assume t: "t \<in> set rest" and j: "j < length (tasks s1)"
        and u: "task_uid (tasks s1 ! j) = task_uid t"
      have j0: "j < length (tasks st)" using j len by simp
      have u0: "task_uid (tasks s1 ! j) = task_uid (tasks st ! j)"
        using w1 j0 by (auto simp: writes_only_def dest: map_eq_nth)
      have "task_uid t \<in> task_uid ` set rest" using t by (rule imageI)
      with d(2) have "task_uid t \<noteq> task_uid task" by metis
      with u u0 have "task_uid (tasks st ! j) \<noteq> task_uid task" by simp
      then have "tasks s1 ! j = tasks st ! j"
        using w1 j0 by (simp add: writes_only_def)
      with Cons.prems(3) t j0 u u0 show "attempts (tasks s1 ! j) = attempts t" by simp
    qed
    from Cons.IH[OF r d(1) inv] have g2: "attempts_grow s1 st'" .
    have wr: "writes_only (task_uid ` set rest) s1 st'" using r by (rule workLoop_writes_only)
    show ?thesis
      unfolding attempts_grow_def
    proof (intro allI impI)
      fix j assume j: "j < length (tasks st)"
      have j1: "j < length (tasks s1)" using j len by simp
      have u0: "task_uid (tasks s1 ! j) = task_uid (tasks st ! j)"
        using w1 j by (auto simp: writes_only_def dest: map_eq_nth)
      show "attempts (tasks st ! j) \<le> attempts (tasks st' ! j)
          \<and> attempts (tasks st' ! j) \<le> attempts (tasks st ! j) + 1"
      proof (cases "task_uid (tasks st ! j) = task_uid task")
        case True
        with d(2) u0 have "task_uid (tasks s1 ! j) \<notin> task_uid ` set rest" by simp
        with wr j1 have e: "tasks st' ! j = tasks s1 ! j" by (simp add: writes_only_def)
        from g1 j have "attempts (tasks st ! j) \<le> attempts (tasks s1 ! j)
            \<and> attempts (tasks s1 ! j) \<le> attempts (tasks st ! j) + 1"
          by (simp add: attempts_grow_def)
        with e show ?thesis by simp
      next
        case False
        with w1 j have e: "tasks s1 ! j = tasks st ! j" by (simp add: writes_only_def)
        from g2 j1 have "attempts (tasks s1 ! j) \<le> attempts (tasks st' ! j)
            \<and> attempts (tasks st' ! j) \<le> attempts (tasks s1 ! j) + 1"
          by (simp add: attempts_grow_def)
        with e show ?thesis by simp
      qed
    qed
  qed
qed


lemma batch_distinct:
  "distinct (map task_uid xs)
     \<Longrightarrow> distinct (map task_uid (take n (sort_key created_at (filter P xs))))"
proof -
  assume d: "distinct (map task_uid xs)"
  have "distinct (map task_uid (filter P xs))" using d by (rule distinct_map_filter)
  then have "distinct (map task_uid (sort_key created_at (filter P xs)))"
    by (simp add: distinct_map)
  then have "distinct (take n (map task_uid (sort_key created_at (filter P xs))))"
    by (rule distinct_take)
  then show ?thesis by (simp add: take_map)
qed

lemma processPendingTasks_attempts_grow:
  assumes p: "processPendingTasks env st = Some st'"
    and d: "distinct (map task_uid (tasks st))"
  shows "attempts_grow st st'"
proof (cases "isProcessingCycle st")
  case True
  with p show ?thesis by (simp add: processPendingTasks_def attempts_grow_def)
next
  case False
  let ?st1 = "st\<lparr>isProcessingCycle := True, clock_reads := clock_reads st + 1\<rparr>"
  let ?P = "\<lambda>t. (status t = Pending \<or> status t = Processing)
                 \<and> check_deadline_utc t > clock env (clock_reads st + 1)"
  obtain r2 st2 where g: "findProcessableTasks env 10 ?st1 = (r2, st2)"
    by (cases "findProcessableTasks env 10 ?st1")
  have t2: "tasks st2 = tasks st" using findProcessableTasks_tasks[OF g] by simp
  show ?thesis
  proof (cases r2)
    case (Inl e)
    with False g p have "st' = st2\<lparr>isProcessingCycle := False\<rparr>"
      by (auto simp: processPendingTasks_def workBody_def read_clock_def)
    with t2 show ?thesis by (simp add: attempts_grow_def)
  next
    case (Inr batch)
    with g have f: "batch = take 10 (sort_key created_at (filter ?P (tasks st)))"
      by (auto simp: findProcessableTasks_def read_clock_def db_run_def Let_def
               split: option.splits)
    have db: "distinct (map task_uid batch)" unfolding f using d by (rule batch_distinct)
    have sub: "set batch \<subseteq> set (tasks st)"
      unfolding f using set_take_subset[of 10 "sort_key created_at (filter ?P (tasks st))"]
      by auto
    have inj: "inj_on task_uid (set (tasks st))" using d by (simp add: distinct_map)
    have inv: "\<forall>t \<in> set batch. \<forall>j < length (tasks st2).
           task_uid (tasks st2 ! j) = task_uid t \<longrightarrow> attempts (tasks st2 ! j) = attempts t"
    proof (intro ballI allI impI)
      fix t j assume t: "t \<in> set batch" and j: "j < length (tasks st2)"
        and u: "task_uid (tasks st2 ! j) = task_uid t"
      have "tasks st ! j \<in> set (tasks st)" using j t2 by simp
      moreover have "t \<in> set (tasks st)" using t sub by auto
      ultimately have "tasks st ! j = t" using inj u t2 by (auto dest: inj_onD)
      with t2 show "attempts (tasks st2 ! j) = attempts t" by simp
    qed
    from False g Inr p obtain r3 st3 where
      l: "workLoop env (clock env (clock_reads st)) batch st2 = Some (r3, st3)" and
      h: "st' = st3\<lparr>isProcessingCycle := False\<rparr>"
      by (auto simp: processPendingTasks_def workBody_def read_clock_def split: option.splits)
    from workLoop_attempts_grow[OF l db inv] t2 h show ?thesis
      by (simp add: attempts_grow_def)
  qed
qed

lemma runFullCycle_attempts_grow:
  assumes c: "runFullCycle env st = Some st'" and d: "distinct (map task_uid (tasks st))"
  shows "attempts_grow st st'"
proof -
  let ?st1 = "handleStuckOrExpiredTasks env st"
  have k: "attempts_kept st ?st1" by (rule handleStuckOrExpiredTasks_attempts_kept)
  then have d1: "distinct (map task_uid (tasks ?st1))" using d by (simp add: attempts_kept_def)
  have p: "processPendingTasks env ?st1 = Some st'" using c by (simp add: runFullCycle_def)
  have g: "attempts_grow ?st1 st'" using p d1 by (rule processPendingTasks_attempts_grow)
  have len: "length (tasks ?st1) = length (tasks st)"
    using k by (auto simp: attempts_kept_def dest: map_eq_length)
  have "attempts (tasks ?st1 ! j) = attempts (tasks st ! j)" if "j < length (tasks st)" for j
    using k that by (auto simp: attempts_kept_def dest: map_eq_nth)
  with g len show ?thesis by (simp add: attempts_grow_def)
qed


subsection \<open>Lemmas on the re-entrancy flags and on termination\<close>

lemma flags_kept_refl [simp]: "flags_kept st st"
  by (simp add: flags_kept_def)

lemma flags_kept_trans: "flags_kept st s1 \<Longrightarrow> flags_kept s1 s2 \<Longrightarrow> flags_kept st s2"
  by (simp add: flags_kept_def)

lemma db_run_flags_kept:
  assumes "db_run env stmt eff st = (r, st')"
    and "\<And>k s x s'. eff k s = (x, s') \<Longrightarrow> flags_kept s s'"
  shows "flags_kept st st'"
  using assms
  by (fastforce simp: db_run_def Let_def flags_kept_def split: option.splits prod.splits)

lemma updateProofTaskStatus_flags_kept:
  "updateProofTaskStatus env u s d st = (r, st') \<Longrightarrow> flags_kept st st'"
  unfolding updateProofTaskStatus_def
  by (erule db_run_flags_kept) (auto simp: flags_kept_def)

lemma updateProofTaskAttempts_flags_kept:
  "updateProofTaskAttempts env u n st = (r, st') \<Longrightarrow> flags_kept st st'"
  unfolding updateProofTaskAttempts_def
  by (erule db_run_flags_kept) (auto simp: flags_kept_def)

lemma getWallet_flags_kept: "getWallet env tg st = (r, st') \<Longrightarrow> flags_kept st st'"
  unfolding getWallet_def Let_def
  by (erule db_run_flags_kept) (auto simp: flags_kept_def)

lemma saveWalletLink_flags_kept:
  "saveWalletLink env tg w p raw st = (r, st') \<Longrightarrow> flags_kept st st'"
  unfolding saveWalletLink_def Let_def
  by (erule db_run_flags_kept) (auto simp: flags_kept_def)

lemma findProcessableTasks_flags_kept:
  "findProcessableTasks env limit st = (r, st') \<Longrightarrow> flags_kept st st'"
  unfolding findProcessableTasks_def read_clock_def
  by (auto dest!: db_run_flags_kept simp: flags_kept_def)

lemma getStuckAndExpiredTasks_flags_kept:
  "getStuckAndExpiredTasks env n st = (r, st') \<Longrightarrow> flags_kept st st'"
  unfolding getStuckAndExpiredTasks_def
  by (erule db_run_flags_kept) (auto simp: flags_kept_def)

lemma reapLoop_flags_kept: "reapLoop env ts st = (r, st') \<Longrightarrow> flags_kept st st'"
proof (induction ts arbitrary: st)
  case Nil
  then show ?case by simp
next
  case (Cons task rest)
  then show ?case
    by (auto split: if_splits prod.splits sum.splits
             dest!: updateProofTaskStatus_flags_kept intro: flags_kept_trans)
qed

lemma reapBody_flags_kept: "reapBody env st = (r, st') \<Longrightarrow> flags_kept st st'"
proof -
  assume a: "reapBody env st = (r, st')"
  let ?s1 = "st\<lparr>clock_reads := clock_reads st + 1\<rparr>"
  obtain r2 s2 where g: "getStuckAndExpiredTasks env (clock env (clock_reads st)) ?s1 = (r2, s2)"
    by (cases "getStuckAndExpiredTasks env (clock env (clock_reads st)) ?s1")
  have k2: "flags_kept st s2"
    using getStuckAndExpiredTasks_flags_kept[OF g] by (simp add: flags_kept_def)
  show ?thesis
  proof (cases r2)
    case (Inl e)
    with a g k2 show ?thesis by (simp add: reapBody_def read_clock_def)
  next
    case (Inr found)
    with a g have "reapLoop env found s2 = (r, st')" by (simp add: reapBody_def read_clock_def)
    from flags_kept_trans[OF k2 reapLoop_flags_kept[OF this]] show ?thesis .
  qed
qed

lemma handleStuckOrExpiredTasks_flags:
  "isProcessingCycle (handleStuckOrExpiredTasks env st) = isProcessingCycle st
   \<and> isCleaningUp (handleStuckOrExpiredTasks env st) = isCleaningUp st"
proof (cases "isCleaningUp st")
  case True
  then show ?thesis by (simp add: handleStuckOrExpiredTasks_def)
next
  case False
  obtain r s1 where b: "reapBody env (st\<lparr>isCleaningUp := True\<rparr>) = (r, s1)"
    by (cases "reapBody env (st\<lparr>isCleaningUp := True\<rparr>)")
  from reapBody_flags_kept[OF b] False b show ?thesis
    by (simp add: handleStuckOrExpiredTasks_def flags_kept_def)
qed

lemma checkAndDecide_flags_kept:
  assumes "checkAndDecide env task n target st = Some (r, st')"
  shows "flags_kept st st'"
proof (cases "decryptWallet env (wallet_address_encrypted task) = []")
  case True
  with assms show ?thesis
    by (auto simp: checkAndDecide_def dest!: updateProofTaskStatus_flags_kept)
next
  case False
  with assms have
    "checkOwnershipAfter (chain env) (decryptWallet env (wallet_address_encrypted task))
          (after_timestamp task) (check_deadline_utc task) target (net st) \<noteq> None"
    by (cases "checkOwnershipAfter (chain env)
          (decryptWallet env (wallet_address_encrypted task))
          (after_timestamp task) (check_deadline_utc task) target (net st)")
       (simp_all add: checkAndDecide_def Let_def)
  then obtain pr net1 where
    c: "checkOwnershipAfter (chain env) (decryptWallet env (wallet_address_encrypted task))
          (after_timestamp task) (check_deadline_utc task) target (net st) = Some (pr, net1)"
    by auto
  let ?s1 = "st\<lparr>locator_calls := locator_calls st + 1, net := net1\<rparr>"
  have k1: "flags_kept st ?s1" by (simp add: flags_kept_def)
  show ?thesis
  proof (cases "isProofConfirmed pr")
    case True
    obtain r2 s2 where sv: "saveWalletLink env (telegram_id task)
        (decryptWallet env (wallet_address_encrypted task)) True (Some (telegram_id task)) ?s1
        = (r2, s2)"
      by (cases "saveWalletLink env (telegram_id task)
        (decryptWallet env (wallet_address_encrypted task)) True (Some (telegram_id task)) ?s1")
    have k2: "flags_kept st s2"
      using flags_kept_trans[OF k1 saveWalletLink_flags_kept[OF sv]] .
    show ?thesis
    proof (cases r2)
      case (Inl e)
      with assms False c True sv k2 show ?thesis by (simp add: checkAndDecide_def Let_def)
    next
      case (Inr u)
      with assms False c True sv have
        "updateProofTaskStatus env (task_uid task) Success
           \<lparr>foundTxHash = txHash pr, errorMessage = None, lastCheckedBlock = None\<rparr> s2
         = (r, st')"
        by (simp add: checkAndDecide_def Let_def)
      from flags_kept_trans[OF k2 updateProofTaskStatus_flags_kept[OF this]] show ?thesis .
    qed
  next
    case nc: False
    let ?s2 = "?s1\<lparr>clock_reads := clock_reads ?s1 + 1\<rparr>"
    have k2: "flags_kept st ?s2" by (simp add: flags_kept_def)
    from assms False c nc have
      "(\<exists>s m. updateProofTaskStatus env (task_uid task) s m ?s2 = (r, st')) \<or> st' = ?s2"
      by (auto simp: checkAndDecide_def Let_def read_clock_def split: if_splits)
    then show ?thesis
    proof
      assume "\<exists>s m. updateProofTaskStatus env (task_uid task) s m ?s2 = (r, st')"
      then obtain s m where "updateProofTaskStatus env (task_uid task) s m ?s2 = (r, st')"
        by auto
      from flags_kept_trans[OF k2 updateProofTaskStatus_flags_kept[OF this]] show ?thesis .
    next
      assume "st' = ?s2"
      with k2 show ?thesis by simp
    qed
  qed
qed

lemma processSingleTask_flags_kept:
  assumes "processSingleTask env task st = Some (r, st')"
  shows "flags_kept st st'"
proof (cases "case CHECK_WALLET env of None \<Rightarrow> True | Some t \<Rightarrow> t = []")
  case True
  with assms have "updateProofTaskStatus env (task_uid task) Error
      (with_error ''CHECK_WALLET not configured on server'') st = (r, st')"
    by (auto simp: processSingleTask_def split: option.splits)
  then show ?thesis by (rule updateProofTaskStatus_flags_kept)
next
  case False
  then obtain target where t: "CHECK_WALLET env = Some target" "target \<noteq> []"
    by (auto split: option.splits)
  obtain r1 s1 where u1: "updateProofTaskStatus env (task_uid task) Processing no_details st
      = (r1, s1)"
    by (cases "updateProofTaskStatus env (task_uid task) Processing no_details st")
  have k1: "flags_kept st s1" using u1 by (rule updateProofTaskStatus_flags_kept)
  show ?thesis
  proof (cases r1)
    case (Inl e)
    with assms t u1 k1 show ?thesis by (simp add: processSingleTask_def)
  next
    case (Inr u)
    obtain r2 s2 where u2: "updateProofTaskAttempts env (task_uid task) (attempts task + 1) s1
        = (r2, s2)"
      by (cases "updateProofTaskAttempts env (task_uid task) (attempts task + 1) s1")
    have k2: "flags_kept st s2"
      using flags_kept_trans[OF k1 updateProofTaskAttempts_flags_kept[OF u2]] .
    from assms t u1 Inr u2 obtain r3 s3 where
      c: "checkAndDecide env task (attempts task + 1) target s2 = Some (r3, s3)"
      by (auto simp: processSingleTask_def Let_def split: option.splits)
    have k3: "flags_kept st s3"
      using flags_kept_trans[OF k2 checkAndDecide_flags_kept[OF c]] .
    show ?thesis
    proof (cases r3)
      case (Inr v)
      with assms t u1 \<open>r1 = Inr u\<close> u2 c k3 show ?thesis
        by (simp add: processSingleTask_def Let_def)
    next
      case (Inl msg)
      with assms t u1 \<open>r1 = Inr u\<close> u2 c have
        "updateProofTaskStatus env (task_uid task) Error (with_error msg) s3 = (r, st')"
        by (simp add: processSingleTask_def Let_def)
      from flags_kept_trans[OF k3 updateProofTaskStatus_flags_kept[OF this]] show ?thesis .
    qed
  qed
qed

lemma workLoop_flags_kept:
  "workLoop env now ts st = Some (r, st') \<Longrightarrow> flags_kept st st'"
proof (induction ts arbitrary: st)
  case Nil
  then show ?case by simp
next
  case (Cons task rest)
  show ?case
  proof (cases "check_deadline_utc task \<le> now")
    case True
    obtain r1 s1 where u: "updateProofTaskStatus env (task_uid task) Expired
        (with_error ''Deadline passed before processing attempt.'') st = (r1, s1)"
      by (cases "updateProofTaskStatus env (task_uid task) Expired
        (with_error ''Deadline passed before processing attempt.'') st")
    have k1: "flags_kept st s1" using u by (rule updateProofTaskStatus_flags_kept)
    show ?thesis
    proof (cases r1)
      case (Inl e)
      with Cons.prems True u k1 show ?thesis by simp
    next
      case (Inr v)
      with Cons.prems True u have "workLoop env now rest s1 = Some (r, st')" by simp
      from flags_kept_trans[OF k1 Cons.IH[OF this]] show ?thesis .
    qed
  next
    case False
    obtain r1 s1 where g: "getWallet env (telegram_id task) st = (r1, s1)"
      by (cases "getWallet env (telegram_id task) st")
    have k1: "flags_kept st s1" using g by (rule getWallet_flags_kept)
    show ?thesis
    proof (cases r1)
      case (Inl e)
      with Cons.prems False g k1 show ?thesis by simp
    next
      case (Inr lk)
      show ?thesis
      proof (cases "case lk of None \<Rightarrow> False | Some link \<Rightarrow> proofed link")
        case True
        then obtain link where lk: "lk = Some link" "proofed link"
          by (auto split: option.splits)
        obtain r2 s2 where u: "updateProofTaskStatus env (task_uid task) Success
            (with_error ''Wallet already proofed.'') s1 = (r2, s2)"
          by (cases "updateProofTaskStatus env (task_uid task) Success
            (with_error ''Wallet already proofed.'') s1")
        have k2: "flags_kept st s2"
          using flags_kept_trans[OF k1 updateProofTaskStatus_flags_kept[OF u]] .
        obtain r3 s3 where sv: "saveWalletLink env (telegram_id task) (wallet link) True
            (Some (telegram_id task)) s2 = (r3, s3)"
          by (cases "saveWalletLink env (telegram_id task) (wallet link) True
            (Some (telegram_id task)) s2")
        have k3: "flags_kept st s3"
          using flags_kept_trans[OF k2 saveWalletLink_flags_kept[OF sv]] .
        from Cons.prems False g Inr lk u sv have
          "st' = s2 \<or> st' = s3 \<or> workLoop env now rest s2 = Some (r, st')
           \<or> workLoop env now rest s3 = Some (r, st')"
          by (cases r2; cases r3) (auto split: if_splits)
        with k2 k3 Cons.IH show ?thesis by (auto intro: flags_kept_trans)
      next
        case np: False
        with Cons.prems \<open>\<not> check_deadline_utc task \<le> now\<close> g Inr obtain r2 s2 where
          p: "processSingleTask env task s1 = Some (r2, s2)"
          by (auto split: option.splits)
        have k2: "flags_kept st s2"
          using flags_kept_trans[OF k1 processSingleTask_flags_kept[OF p]] .
        from Cons.prems \<open>\<not> check_deadline_utc task \<le> now\<close> g Inr np p have
          "st' = s2 \<or> workLoop env now rest s2 = Some (r, st')"
          by (cases r2) auto
        with k2 Cons.IH show ?thesis by (auto intro: flags_kept_trans)
      qed
    qed
  qed
qed

lemma processPendingTasks_flags:
  assumes "processPendingTasks env st = Some st'"
  shows "isProcessingCycle st' = isProcessingCycle st \<and> isCleaningUp st' = isCleaningUp st"
proof (cases "isProcessingCycle st")
  case True
  with assms show ?thesis by (simp add: processPendingTasks_def)
next
  case False
  let ?s0 = "st\<lparr>isProcessingCycle := True\<rparr>"
  let ?s1 = "?s0\<lparr>clock_reads := clock_reads ?s0 + 1\<rparr>"
  from assms False obtain r s3 where
    b: "workBody env ?s0 = Some (r, s3)" and e: "st' = s3\<lparr>isProcessingCycle := False\<rparr>"
    by (auto simp: processPendingTasks_def split: option.splits)
  obtain r2 s2 where g: "findProcessableTasks env 10 ?s1 = (r2, s2)"
    by (cases "findProcessableTasks env 10 ?s1")
  have k2: "flags_kept ?s0 s2"
    using findProcessableTasks_flags_kept[OF g] by (simp add: flags_kept_def)
  have "flags_kept ?s0 s3"
  proof (cases r2)
    case (Inl m)
    with b g k2 show ?thesis by (simp add: workBody_def read_clock_def)
  next
    case (Inr batch)
    with b g have "workLoop env (clock env (clock_reads st)) batch s2 = Some (r, s3)"
      by (simp add: workBody_def read_clock_def)
    from flags_kept_trans[OF k2 workLoop_flags_kept[OF this]] show ?thesis .
  qed
  with e False show ?thesis by (simp add: flags_kept_def)
qed

text \<open>When every ownership check returns, so does every step above it.\<close>

lemma checkAndDecide_returns:
  assumes "\<And>w a d t s. checkOwnershipAfter (chain env) w a d t s \<noteq> None"
  shows "checkAndDecide env task n target st \<noteq> None"
proof -
  obtain pr net1 where
    "checkOwnershipAfter (chain env) (decryptWallet env (wallet_address_encrypted task))
          (after_timestamp task) (check_deadline_utc task) target (net st) = Some (pr, net1)"
    using assms[of "decryptWallet env (wallet_address_encrypted task)" "after_timestamp task"
                   "check_deadline_utc task" target "net st"]
    by auto
  then show ?thesis
    by (simp add: checkAndDecide_def Let_def split: prod.splits sum.splits)
qed

lemma processSingleTask_returns:
  assumes "\<And>w a d t s. checkOwnershipAfter (chain env) w a d t s \<noteq> None"
  shows "processSingleTask env task st \<noteq> None"
proof -
  note c = checkAndDecide_returns[OF assms]
  show ?thesis
    by (simp add: processSingleTask_def Let_def c del: not_None_eq
             split: option.splits prod.splits sum.splits)
qed

lemma workLoop_returns:
  assumes "\<And>w a d t s. checkOwnershipAfter (chain env) w a d t s \<noteq> None"
  shows "workLoop env now ts st \<noteq> None"
proof (induction ts arbitrary: st)
  case Nil
  show ?case by simp
next
  case (Cons task rest)
  note p = processSingleTask_returns[OF assms]
  show ?case
    by (simp add: Cons.IH p del: not_None_eq split: option.splits prod.splits sum.splits)
qed

lemma processPendingTasks_returns:
  assumes "\<And>w a d t s. checkOwnershipAfter (chain env) w a d t s \<noteq> None"
  shows "processPendingTasks env st \<noteq> None"
proof -
  note w = workLoop_returns[OF assms]
  show ?thesis
    by (simp add: processPendingTasks_def workBody_def w del: not_None_eq
             split: option.splits prod.splits sum.splits)
qed


lemma runCycles_flags:
  assumes "\<And>w a d t s. checkOwnershipAfter (chain env) w a d t s \<noteq> None"
  shows "\<not> isCleaningUp st \<Longrightarrow> \<not> isProcessingCycle st
     \<Longrightarrow> \<exists>st'. runCycles env n st = Some st' \<and> \<not> isCleaningUp st' \<and> \<not> isProcessingCycle st'"
proof (induction n arbitrary: st)
  case 0
  then show ?case by simp
next
  case (Suc n)
  let ?s1 = "handleStuckOrExpiredTasks env st"
  from processPendingTasks_returns[OF assms, of ?s1] obtain s2 where
    p: "processPendingTasks env ?s1 = Some s2"
    by auto
  have "\<not> isCleaningUp s2" "\<not> isProcessingCycle s2"
    using processPendingTasks_flags[OF p] handleStuckOrExpiredTasks_flags[of env st] Suc.prems
    by simp_all
  from Suc.IH[OF this] p show ?case by (simp add: runFullCycle_def)
qed

text \<open>An explorer that is never reached fails every page, so every check on it returns.\<close>

lemma primaryAttempts_unreachable:
  "fst (primaryAttempts unreachable_explorer u c a st) = PrimaryExhausted"
proof (induction "MAX_API_CALL_ATTEMPTS - a" arbitrary: a st rule: less_induct)
  case less
  show ?case
  proof (cases "a < MAX_API_CALL_ATTEMPTS")
    case True
    then have "MAX_API_CALL_ATTEMPTS - (a + 1) < MAX_API_CALL_ATTEMPTS - a" by simp
    from less[OF this] True show ?thesis
      by (subst primaryAttempts.simps) (simp add: post_def unreachable_explorer_def)
  next
    case False
    then show ?thesis by (subst primaryAttempts.simps) simp
  qed
qed

lemma pageLoop_unreachable:
  "pageLoop unreachable_explorer u t a d c st \<noteq> None"
proof -
  obtain r s1 where p: "primaryAttempts unreachable_explorer u c 0 st = (r, s1)"
    by (cases "primaryAttempts unreachable_explorer u c 0 st")
  with primaryAttempts_unreachable[of u c 0 st] have "r = PrimaryExhausted" by simp
  with p have "fetchPage unreachable_explorer u c st = (PageFailed, s1)"
    by (simp add: fetchPage_def)
  then show ?thesis by (subst pageLoop.simps) simp
qed

lemma checkOwnershipAfter_unreachable:
  "checkOwnershipAfter unreachable_explorer w a d t s \<noteq> None"
proof -
  note p = pageLoop_unreachable
  show ?thesis
    by (simp add: checkOwnershipAfter_def Let_def findProofTransactionGraphQL_def p
             del: not_None_eq split: option.splits prod.splits)
qed

text \<open>An explorer whose every page announces a next one keeps the search going for ever.\<close>

lemma fetchPage_endless:
  "fetchPage endless_explorer user cursor st
   = (PageFetched False endless_page, st\<lparr>requests := requests st @ [PrimaryQuery user cursor]\<rparr>)"
  by (simp add: fetchPage_def primaryAttempts.simps[of _ _ _ 0] post_def endless_explorer_def
        body_of_page_def MAX_API_CALL_ATTEMPTS_def)

lemma scanEdges_endless:
  "fst (scanEdges endless_explorer False user target after deadline (edges endless_page) st)
   = None"
  by (simp add: endless_page_def resolveTimestamp_def sample_tx_def matchesCriteria_def Let_def)

lemma nextCursorAfter_endless:
  "after \<le> 1010 \<Longrightarrow> nextCursorAfter endless_explorer False after endless_page = Some ''c1''"
  by (simp add: nextCursorAfter_def endless_page_def endless_explorer_def sample_tx_def
        sample_parseDate_def)

lemma pageLoop_endless:
  assumes "after \<le> 1010"
  shows "pageLoop endless_explorer user target after deadline cursor st = None"
proof -
  have "False"
    if "pageLoop env user target after deadline cursor st = Some y" "env = endless_explorer"
    for env y
    using that assms
  proof (induct rule: pageLoop.raw_induct[rotated 1, consumes 1, case_names step])
    case (step loop env user target after deadline cursor st y)
    let ?s1 = "st\<lparr>requests := requests st @ [PrimaryQuery user cursor]\<rparr>"
    obtain r s2 where
      sc: "scanEdges endless_explorer False user target after deadline (edges endless_page) ?s1
           = (r, s2)"
      by (cases "scanEdges endless_explorer False user target after deadline
                   (edges endless_page) ?s1")
    with scanEdges_endless[of user target after deadline ?s1] have r: "r = None" by simp
    from step(2) step(3) sc r fetchPage_endless[of user cursor st]
      nextCursorAfter_endless[OF step(4)]
    have "loop env user target after deadline (Some ''c1'') s2 = Some y" by simp
    from step(1)[OF this step(3) step(4)] show False .
  qed
  then show ?thesis
    by (cases "pageLoop endless_explorer user target after deadline cursor st") auto
qed

lemma checkOwnershipAfter_endless:
  "checkOwnershipAfter endless_explorer sample_user 1000 1900 sample_target st = None"
proof -
  have v: "isValidEvmAddress (toLowerCase (trim sample_user))" "isValidEvmAddress sample_target"
    by code_simp+
  have n: "sample_target \<noteq> []" by (simp add: sample_target_def)
  show ?thesis
    by (simp add: checkOwnershipAfter_def Let_def findProofTransactionGraphQL_def v n
          pageLoop_endless)
qed


subsection \<open>Lemmas on the scan of a page\<close>

lemma up_to_first_simps [simp]:
  "up_to_first P [] = []"
  "up_to_first P (x # xs) = (if P x then [x] else x # up_to_first P xs)"
  by (simp_all add: up_to_first_def split: option.splits)

lemma scanEdges_page_order:
  "scanEdges env fb user target after deadline es st = (r, st')
   \<Longrightarrow> r = map_option (\<lambda>(txNode, ts). proofOf txNode ts)
             (find (\<lambda>(txNode, ts). matchesCriteria user target after deadline txNode ts)
                (evaluated env fb es st))
     \<and> checked st' = checked st
         @ up_to_first (\<lambda>(txNode, ts). matchesCriteria user target after deadline txNode ts)
             (evaluated env fb es st)"
proof (induction es arbitrary: st)
  case Nil
  then show ?case by simp
next
  case (Cons edge rest)
  show ?case
  proof (cases edge)
    case None
    with Cons show ?thesis by simp
  next
    case (Some txNode)
    obtain t st1 where rt: "resolveTimestamp env fb txNode st = (t, st1)"
      by (cases "resolveTimestamp env fb txNode st")
    have c1: "checked st1 = checked st" using rt by (rule resolveTimestamp_checked)
    show ?thesis
    proof (cases t)
      case None
      with Cons.prems Some rt have "scanEdges env fb user target after deadline rest st1 = (r, st')"
        by simp
      from Cons.IH[OF this] Some rt None c1 show ?thesis by simp
    next
      case (Some ts)
      let ?st2 = "st1\<lparr>checked := checked st1 @ [(txNode, ts)]\<rparr>"
      show ?thesis
      proof (cases "matchesCriteria user target after deadline txNode ts")
        case True
        with Cons.prems \<open>edge = Some txNode\<close> rt Some c1 show ?thesis
          by (auto simp: proofOf_def Let_def)
      next
        case False
        with Cons.prems \<open>edge = Some txNode\<close> rt Some
        have "scanEdges env fb user target after deadline rest ?st2 = (r, st')"
          by (simp add: Let_def)
        from Cons.IH[OF this] \<open>edge = Some txNode\<close> rt Some False c1 show ?thesis by simp
      qed
    qed
  qed
qed

lemma scanEdges_position:
  "scanEdges env fb user target after deadline es st = (Some found, st')
   \<Longrightarrow> \<exists>pre txNode post sp.
         es = pre @ Some txNode # post
         \<and> scanEdges env fb user target after deadline pre st = (None, sp)
         \<and> fst (resolveTimestamp env fb txNode sp) = Some (pt_timestamp found)
         \<and> found = proofOf txNode (pt_timestamp found)
         \<and> matchesCriteria user target after deadline txNode (pt_timestamp found)"
proof (induction es arbitrary: st)
  case Nil
  then show ?case by simp
next
  case (Cons edge rest)
  show ?case
  proof (cases edge)
    case None
    with Cons.prems have "scanEdges env fb user target after deadline rest st = (Some found, st')"
      by simp
    from Cons.IH[OF this] obtain pre txNode post sp where
      h: "rest = pre @ Some txNode # post"
         "scanEdges env fb user target after deadline pre st = (None, sp)"
         "fst (resolveTimestamp env fb txNode sp) = Some (pt_timestamp found)"
         "found = proofOf txNode (pt_timestamp found)"
         "matchesCriteria user target after deadline txNode (pt_timestamp found)"
      by blast
    show ?thesis
      by (rule exI[of _ "None # pre"], rule exI[of _ txNode], rule exI[of _ post],
          rule exI[of _ sp]) (use None h in simp)
  next
    case (Some tx)
    obtain t st1 where rt: "resolveTimestamp env fb tx st = (t, st1)"
      by (cases "resolveTimestamp env fb tx st")
    show ?thesis
    proof (cases t)
      case None
      with Cons.prems Some rt
      have "scanEdges env fb user target after deadline rest st1 = (Some found, st')"
        by simp
      from Cons.IH[OF this] obtain pre txNode post sp where
        h: "rest = pre @ Some txNode # post"
           "scanEdges env fb user target after deadline pre st1 = (None, sp)"
           "fst (resolveTimestamp env fb txNode sp) = Some (pt_timestamp found)"
           "found = proofOf txNode (pt_timestamp found)"
           "matchesCriteria user target after deadline txNode (pt_timestamp found)"
        by blast
      show ?thesis
        by (rule exI[of _ "Some tx # pre"], rule exI[of _ txNode], rule exI[of _ post],
            rule exI[of _ sp]) (use Some rt None h in simp)
    next
      case ts: (Some ts)
      let ?st2 = "st1\<lparr>checked := checked st1 @ [(tx, ts)]\<rparr>"
      show ?thesis
      proof (cases "matchesCriteria user target after deadline tx ts")
        case True
        with Cons.prems Some rt ts have f: "found = proofOf tx ts"
          by (auto simp: proofOf_def Let_def)
        show ?thesis
          by (rule exI[of _ "[]"], rule exI[of _ tx], rule exI[of _ rest], rule exI[of _ st])
             (use Some rt ts True f in \<open>simp add: proofOf_def\<close>)
      next
        case False
        with Cons.prems Some rt ts
        have "scanEdges env fb user target after deadline rest ?st2 = (Some found, st')"
          by (simp add: Let_def)
        from Cons.IH[OF this] obtain pre txNode post sp where
          h: "rest = pre @ Some txNode # post"
             "scanEdges env fb user target after deadline pre ?st2 = (None, sp)"
             "fst (resolveTimestamp env fb txNode sp) = Some (pt_timestamp found)"
             "found = proofOf txNode (pt_timestamp found)"
             "matchesCriteria user target after deadline txNode (pt_timestamp found)"
          by blast
        show ?thesis
          by (rule exI[of _ "Some tx # pre"], rule exI[of _ txNode], rule exI[of _ post],
              rule exI[of _ sp]) (use Some rt ts False h in \<open>simp add: Let_def\<close>)
      qed
    qed
  qed
qed

lemma evaluated_primary:
  "evaluated env False es st = List.map_filter (primary_entry env) es"
  by (induction es arbitrary: st)
     (auto simp: List.map_filter_simps primary_entry_def resolveTimestamp_def
           split: option.splits)

lemma four_clauses_matches:
  "(\<lambda>(n, ts). matchesCriteria (toLowerCase userWallet) (toLowerCase targetWallet)
                afterTimestamp deadline n ts)
   = four_clauses userWallet targetWallet afterTimestamp deadline"
  by (auto simp: matchesCriteria_four_clauses fun_eq_iff)

lemma pageLoop_page_step:
  assumes f: "fetchPage env user cursor st = (PageFetched fb pg, st1)"
    and sc: "scanEdges env fb user target after deadline (edges pg) st1 = (r, st2)"
  shows "pageLoop env user target after deadline cursor st
         = (case find (\<lambda>(txNode, ts). matchesCriteria user target after deadline txNode ts)
                   (evaluated env fb (edges pg) st1) of
              Some (txNode, ts) \<Rightarrow> Some (Some (proofOf txNode ts), st2)
            | None \<Rightarrow>
                (case nextCursorAfter env fb after pg of
                   None \<Rightarrow> Some (None, st2)
                 | Some c \<Rightarrow> pageLoop env user target after deadline (Some c) st2))"
proof -
  from scanEdges_page_order[OF sc] have
    r: "r = map_option (\<lambda>(txNode, ts). proofOf txNode ts)
             (find (\<lambda>(txNode, ts). matchesCriteria user target after deadline txNode ts)
                (evaluated env fb (edges pg) st1))"
    by simp
  show ?thesis
    by (subst pageLoop.simps) (auto simp: f sc r split: option.splits)
qed

lemma checkOwnershipAfter_confirmed:
  assumes "checkOwnershipAfter env walletHash after deadline target st = Some (res, st')"
    "isProofConfirmed res"
  shows "\<exists>found. findProofTransactionGraphQL env (toLowerCase (trim walletHash)) target
                   after deadline st = Some (Some found, st')
               \<and> txHash res = Some (pt_hash found)"
  using assms
  by (auto simp: checkOwnershipAfter_def Let_def split: if_splits option.splits prod.splits)



subsection \<open>Lemmas on the statements that write a message\<close>

lemma appends_mono:
  "appends P st st' \<Longrightarrow> (\<And>s. P s \<Longrightarrow> Q s) \<Longrightarrow> appends Q st st'"
  by (auto simp: appends_def list_all_iff)

lemma message_strict_simps [simp]:
  "message_strict (SelectStuckAndExpired n)"
  "message_strict (SelectProcessable n l)"
  "message_strict (UpdateAttempts u a)"
  "message_strict (SelectWallet h)"
  "message_strict (UpsertWallet h w p)"
  "message_strict (UpdateStatus u Error d)"
  "message_strict (UpdateStatus u Expired d)"
  "message_strict (UpdateStatus u Failed_no_tx d)"
  "message_strict (UpdateStatus u s no_details)"
  "message_strict (UpdateStatus u s \<lparr>foundTxHash = h', errorMessage = None, lastCheckedBlock = b\<rparr>)"
  by (auto simp: message_strict_def no_details_def with_error_def split: option.splits)

lemma message_strict_allowed: "message_strict s \<Longrightarrow> message_allowed s"
  by (auto simp: message_strict_def message_allowed_def split: db_stmt.splits option.splits)

lemma reapLoop_strict:
  "reapLoop env ts st = (r, st') \<Longrightarrow> appends message_strict st st'"
proof (induction ts arbitrary: st)
  case Nil
  then show ?case by simp
next
  case (Cons task rest)
  then show ?case
    by (auto split: if_splits prod.splits sum.splits
             dest!: updateProofTaskStatus_appends[where P = message_strict]
             intro: appends_trans)
qed

lemma handleStuckOrExpiredTasks_strict:
  "appends message_strict st (handleStuckOrExpiredTasks env st)"
proof (cases "isCleaningUp st")
  case True
  then show ?thesis by (simp add: handleStuckOrExpiredTasks_def)
next
  case False
  let ?st1 = "st\<lparr>isCleaningUp := True, clock_reads := clock_reads st + 1\<rparr>"
  obtain r2 st2 where g: "getStuckAndExpiredTasks env (clock env (clock_reads st)) ?st1 = (r2, st2)"
    by (cases "getStuckAndExpiredTasks env (clock env (clock_reads st)) ?st1")
  have a2: "appends message_strict st st2"
    using getStuckAndExpiredTasks_appends[OF g, of message_strict] by simp
  show ?thesis
  proof (cases r2)
    case (Inl e)
    with False g a2 show ?thesis
      by (simp add: handleStuckOrExpiredTasks_def reapBody_def read_clock_def)
  next
    case (Inr found)
    obtain r3 st3 where l: "reapLoop env found st2 = (r3, st3)"
      by (cases "reapLoop env found st2")
    from appends_trans[OF a2 reapLoop_strict[OF l]] False g Inr l show ?thesis
      by (simp add: handleStuckOrExpiredTasks_def reapBody_def read_clock_def)
  qed
qed

lemma checkAndDecide_strict:
  assumes "checkAndDecide env task n target st = Some (r, st')"
  shows "appends message_strict st st'"
  using assms
  by (auto simp: checkAndDecide_def Let_def read_clock_def
           split: if_splits option.splits prod.splits sum.splits
           dest!: updateProofTaskStatus_appends[where P = message_strict]
                  saveWalletLink_appends[where P = message_strict]
           intro: appends_trans)

lemma processSingleTask_strict:
  assumes "processSingleTask env task st = Some (r, st')"
  shows "appends message_strict st st'"
  using assms
  by (auto simp: processSingleTask_def Let_def
           split: if_splits option.splits prod.splits sum.splits
           dest!: updateProofTaskStatus_appends[where P = message_strict]
                  updateProofTaskAttempts_appends[where P = message_strict]
                  checkAndDecide_strict
           intro: appends_trans)

lemma workLoop_head_statements:
  assumes "workLoop env now (task # rest) st = Some (r, st')"
  shows "\<exists>s1. appends (head_statement env task now st) st s1
              \<and> (st' = s1 \<or> workLoop env now rest s1 = Some (r, st'))"
proof (cases "check_deadline_utc task \<le> now")
  case True
  obtain r1 s1 where u: "updateProofTaskStatus env (task_uid task) Expired
      (with_error ''Deadline passed before processing attempt.'') st = (r1, s1)"
    by (cases "updateProofTaskStatus env (task_uid task) Expired
      (with_error ''Deadline passed before processing attempt.'') st")
  have a: "appends (head_statement env task now st) st s1"
    using u by (rule updateProofTaskStatus_appends) (simp add: head_statement_def)
  from assms True u have "st' = s1 \<or> workLoop env now rest s1 = Some (r, st')"
    by (cases r1) auto
  with a show ?thesis by blast
next
  case False
  let ?P = "head_statement env task now st"
  obtain r1 s1 where g: "getWallet env (telegram_id task) st = (r1, s1)"
    by (cases "getWallet env (telegram_id task) st")
  have a1: "appends ?P st s1"
    using g by (rule getWallet_appends) (simp add: head_statement_def)
  show ?thesis
  proof (cases r1)
    case (Inl e)
    with assms False g have "st' = s1" by simp
    with a1 show ?thesis by blast
  next
    case (Inr lk)
    show ?thesis
    proof (cases "case lk of None \<Rightarrow> False | Some link \<Rightarrow> proofed link")
      case True
      then obtain link where lk: "lk = Some link" "proofed link"
        by (auto split: option.splits)
      have ap: "already_proofed env task now st"
        using False g Inr lk by (simp add: already_proofed_def)
      obtain r2 s2 where u: "updateProofTaskStatus env (task_uid task) Success
          (with_error ''Wallet already proofed.'') s1 = (r2, s2)"
        by (cases "updateProofTaskStatus env (task_uid task) Success
          (with_error ''Wallet already proofed.'') s1")
      have "appends ?P s1 s2"
        using u by (rule updateProofTaskStatus_appends)
                   (simp add: head_statement_def ap note_write_def)
      with a1 have a2: "appends ?P st s2" by (rule appends_trans)
      obtain r3 s3 where sv: "saveWalletLink env (telegram_id task) (wallet link) True
          (Some (telegram_id task)) s2 = (r3, s3)"
        by (cases "saveWalletLink env (telegram_id task) (wallet link) True
          (Some (telegram_id task)) s2")
      have "appends ?P s2 s3"
        using sv by (rule saveWalletLink_appends) (simp add: head_statement_def)
      with a2 have a3: "appends ?P st s3" by (rule appends_trans)
      from assms False g Inr lk u sv have
        "st' = s2 \<or> workLoop env now rest s2 = Some (r, st')
         \<or> st' = s3 \<or> workLoop env now rest s3 = Some (r, st')"
        by (cases r2; cases r3) (auto split: if_splits)
      with a2 a3 show ?thesis by blast
    next
      case np: False
      with assms \<open>\<not> check_deadline_utc task \<le> now\<close> g Inr obtain r2 s2 where
        p: "processSingleTask env task s1 = Some (r2, s2)"
        by (auto split: option.splits)
      have "appends ?P s1 s2"
        using processSingleTask_strict[OF p]
        by (rule appends_mono) (simp add: head_statement_def)
      with a1 have a2: "appends ?P st s2" by (rule appends_trans)
      from assms \<open>\<not> check_deadline_utc task \<le> now\<close> g Inr np p have
        "st' = s2 \<or> workLoop env now rest s2 = Some (r, st')"
        by (cases r2) auto
      with a2 show ?thesis by blast
    qed
  qed
qed

lemma workLoop_note_written:
  assumes "workLoop env now (task # rest) st = Some (r, st')"
    and "already_proofed env task now st"
  shows "\<exists>new. statements st' = statements st
            @ [SelectWallet (hashTelegramId env (telegram_id task)), note_write task] @ new"
proof -
  obtain r1 s1 where g: "getWallet env (telegram_id task) st = (r1, s1)"
    by (cases "getWallet env (telegram_id task) st")
  from assms(2) g obtain link where
    l: "r1 = Inr (Some link)" "proofed link" "\<not> check_deadline_utc task \<le> now"
    by (auto simp: already_proofed_def split: sum.splits option.splits)
  have s1: "statements s1 = statements st @ [SelectWallet (hashTelegramId env (telegram_id task))]"
    using g by (auto simp: getWallet_def db_run_def Let_def split: option.splits)
  obtain r2 s2 where u: "updateProofTaskStatus env (task_uid task) Success
      (with_error ''Wallet already proofed.'') s1 = (r2, s2)"
    by (cases "updateProofTaskStatus env (task_uid task) Success
      (with_error ''Wallet already proofed.'') s1")
  have s2: "statements s2 = statements s1 @ [note_write task]"
    using u by (auto simp: updateProofTaskStatus_def db_run_def Let_def note_write_def
                     split: option.splits)
  obtain r3 s3 where sv: "saveWalletLink env (telegram_id task) (wallet link) True
      (Some (telegram_id task)) s2 = (r3, s3)"
    by (cases "saveWalletLink env (telegram_id task) (wallet link) True
      (Some (telegram_id task)) s2")
  have s3: "appends (\<lambda>s. True) s2 s3"
    using sv by (rule saveWalletLink_appends) simp
  from assms(1) l g u sv have
    "st' = s2 \<or> workLoop env now rest s2 = Some (r, st')
     \<or> st' = s3 \<or> workLoop env now rest s3 = Some (r, st')"
    by (cases r2; cases r3) (auto split: if_splits)
  moreover have "appends (\<lambda>s. True) s st'" if "workLoop env now rest s = Some (r, st')" for s
    using workLoop_appends[OF that] by (rule appends_mono) simp
  ultimately have "appends (\<lambda>s. True) s2 st'"
    using s3 by (auto intro: appends_trans)
  then show ?thesis using s1 s2 by (auto simp: appends_def)
qed



subsection \<open>Lemmas on the decision after a check without result\<close>

lemma processSingleTask_not_confirmed:
  assumes cw: "CHECK_WALLET env = Some target" "target \<noteq> []"
    and w: "decryptWallet env (wallet_address_encrypted task) \<noteq> []"
    and chk: "checkOwnershipAfter (chain env) (decryptWallet env (wallet_address_encrypted task))
                (after_timestamp task) (check_deadline_utc task) target (net st)
              = Some (proofResult, net1)"
    and nc: "\<not> isProofConfirmed proofResult"
    and row: "i < length (tasks st)" "task_uid (tasks st ! i) = task_uid task"
    and ok: "db_fault env (length (statements st)) = None"
  shows "\<exists>st4. length (statements st4) = length (statements st) + 2
      \<and> length (tasks st4) = length (tasks st)
      \<and> task_uid (tasks st4 ! i) = task_uid task
      \<and> status (tasks st4 ! i) = Processing
      \<and> error_message (tasks st4 ! i) = error_message (tasks st ! i)
      \<and> processSingleTask env task st =
          (if check_deadline_utc task \<le> clock env (clock_reads st) then
             (case updateProofTaskStatus env (task_uid task) Expired
                     (with_error ''Deadline passed, proof not found.'') st4 of
                (Inr u, s3) \<Rightarrow> Some (Inr (), s3)
              | (Inl msg, s3) \<Rightarrow>
                  Some (updateProofTaskStatus env (task_uid task) Error (with_error msg) s3))
           else if attempts task + 1 \<ge> PROOF_RETRY_LIMIT then
             (case updateProofTaskStatus env (task_uid task) Failed_no_tx
                     (with_error (max_retry_message (attempts task + 1))) st4 of
                (Inr u, s3) \<Rightarrow> Some (Inr (), s3)
              | (Inl msg, s3) \<Rightarrow>
                  Some (updateProofTaskStatus env (task_uid task) Error (with_error msg) s3))
           else Some (Inr (), st4))"
proof -
  let ?uid = "task_uid task"
  let ?k = "length (statements st)"
  let ?n = "attempts task + 1"
  define st1 where "st1 = st\<lparr>statements := statements st @ [UpdateStatus ?uid Processing no_details],
      tasks := map (\<lambda>t. if task_uid t = ?uid
                          then apply_status Processing no_details (db_now env ?k) t else t)
                 (tasks st)\<rparr>"
  have u1: "updateProofTaskStatus env ?uid Processing no_details st = (Inr (), st1)"
    using ok by (simp add: updateProofTaskStatus_def db_run_ok st1_def)
  obtain r2 st2 where u2: "updateProofTaskAttempts env ?uid ?n st1 = (r2, st2)"
    by (cases "updateProofTaskAttempts env ?uid ?n st1")
  have s2: "length (statements st2) = ?k + 2" "net st2 = net st" "clock_reads st2 = clock_reads st"
    "length (tasks st2) = length (tasks st)"
    "task_uid (tasks st2 ! i) = ?uid" "status (tasks st2 ! i) = Processing"
    "error_message (tasks st2 ! i) = error_message (tasks st ! i)"
    using u2 row
    by (auto simp: updateProofTaskAttempts_def db_run_def Let_def st1_def apply_status_def
                   no_details_def split: option.splits)
  let ?st3 = "st2\<lparr>locator_calls := locator_calls st2 + 1, net := net1\<rparr>"
  let ?st4 = "?st3\<lparr>clock_reads := clock_reads ?st3 + 1\<rparr>"
  have cd: "checkAndDecide env task ?n target st2 =
      (if check_deadline_utc task \<le> clock env (clock_reads st) then
         Some (updateProofTaskStatus env ?uid Expired
                 (with_error ''Deadline passed, proof not found.'') ?st4)
       else if ?n \<ge> PROOF_RETRY_LIMIT then
         Some (updateProofTaskStatus env ?uid Failed_no_tx
                 (with_error (max_retry_message ?n)) ?st4)
       else Some (Inr (), ?st4))"
    using w chk nc s2(2,3) by (simp add: checkAndDecide_def Let_def read_clock_def)
  have ps: "processSingleTask env task st =
      (case checkAndDecide env task ?n target st2 of
         None \<Rightarrow> None
       | Some (Inr u, st3) \<Rightarrow> Some (Inr (), st3)
       | Some (Inl msg, st3) \<Rightarrow>
           Some (updateProofTaskStatus env ?uid Error (with_error msg) st3))"
    using cw u1 u2 by (simp add: processSingleTask_def Let_def)
  have e: "processSingleTask env task st =
          (if check_deadline_utc task \<le> clock env (clock_reads st) then
             (case updateProofTaskStatus env (task_uid task) Expired
                     (with_error ''Deadline passed, proof not found.'') ?st4 of
                (Inr u, s3) \<Rightarrow> Some (Inr (), s3)
              | (Inl msg, s3) \<Rightarrow>
                  Some (updateProofTaskStatus env (task_uid task) Error (with_error msg) s3))
           else if attempts task + 1 \<ge> PROOF_RETRY_LIMIT then
             (case updateProofTaskStatus env (task_uid task) Failed_no_tx
                     (with_error (max_retry_message (attempts task + 1))) ?st4 of
                (Inr u, s3) \<Rightarrow> Some (Inr (), s3)
              | (Inl msg, s3) \<Rightarrow>
                  Some (updateProofTaskStatus env (task_uid task) Error (with_error msg) s3))
           else Some (Inr (), ?st4))"
    unfolding ps cd by (simp split: prod.splits sum.splits)
  show ?thesis
    by (rule exI[of _ ?st4]) (use s2 e in simp)
qed

lemma status_write_or_error:
  assumes "i < length (tasks st4)" "task_uid (tasks st4 ! i) = uid"
    "status (tasks st4 ! i) = Processing"
  shows "\<exists>r st'. (case updateProofTaskStatus env uid s (with_error m) st4 of
                     (Inr u, s3) \<Rightarrow> Some (Inr (), s3)
                   | (Inl msg, s3) \<Rightarrow>
                       Some (updateProofTaskStatus env uid Error (with_error msg) s3))
                  = Some (r, st')
               \<and> written_or_error env (length (statements st4)) i s m r st'"
proof (cases "db_fault env (length (statements st4))")
  case None
  then show ?thesis
    using assms
    by (simp add: updateProofTaskStatus_def db_run_ok written_or_error_def apply_status_def
          with_error_def)
next
  case (Some e)
  let ?s5 = "st4\<lparr>statements := statements st4 @ [UpdateStatus uid s (with_error m)]\<rparr>"
  have u: "updateProofTaskStatus env uid s (with_error m) st4 = (Inl e, ?s5)"
    using Some by (simp add: updateProofTaskStatus_def db_run_raises)
  show ?thesis
  proof (cases "db_fault env (length (statements st4) + 1)")
    case None
    then have "db_fault env (length (statements ?s5)) = None" by simp
    then show ?thesis
      using assms Some None u
      by (simp add: updateProofTaskStatus_def[of env uid Error] db_run_ok written_or_error_def
            apply_status_def with_error_def)
  next
    case (Some e2)
    then have "db_fault env (length (statements ?s5)) = Some e2" by simp
    then show ?thesis
      using assms \<open>db_fault env (length (statements st4)) = Some e\<close> Some u
      by (simp add: updateProofTaskStatus_def[of env uid Error] db_run_raises
            written_or_error_def)
  qed
qed


section \<open>The ownership check refuses bad input before any request\<close>

text \<open>
  Claim C4. When the user wallet (\<open>walletHash\<close> trimmed and lower-cased, the source's
  \<open>userWallet\<close>) or the target wallet is not \<open>0x\<close> followed by forty hexadecimal
  digits, or when \<open>afterTimestamp\<close> is not below the deadline, \<open>checkOwnershipAfter\<close>
  returns normally, with \<open>isProofConfirmed = false\<close>, no transaction hash and a non-empty
  reason, and the locator's trace is unchanged: no request was sent.
\<close>

theorem checkOwnershipAfter_rejects_invalid_input:
  assumes "\<not> isValidEvmAddress (toLowerCase (trim walletHash))
           \<or> \<not> isValidEvmAddress targetWalletAddress
           \<or> afterTimestamp \<ge> deadlineTimestamp"
  shows "\<exists>r reason.
           checkOwnershipAfter env walletHash afterTimestamp deadlineTimestamp
             targetWalletAddress st = Some (r, st)
           \<and> \<not> isProofConfirmed r \<and> txHash r = None
           \<and> error r = Some reason \<and> reason \<noteq> []"
  using assms by (auto simp: checkOwnershipAfter_def Let_def)

theorem checkOwnershipAfter_rejects_invalid_input_witness:
  "\<not> isValidEvmAddress (toLowerCase (trim ''  0X12  ''))
   \<and> (\<exists>r reason.
           checkOwnershipAfter \<lparr>explorer = (\<lambda>k q. HttpError None), parseDate = (\<lambda>s. NaN)\<rparr>
             ''  0X12  '' 0 900 ''0xzz'' \<lparr>requests = [], checked = []\<rparr>
             = Some (r, \<lparr>requests = [], checked = []\<rparr>)
           \<and> \<not> isProofConfirmed r \<and> txHash r = None
           \<and> error r = Some reason \<and> reason \<noteq> [])"
proof -
  have h: "\<not> isValidEvmAddress (toLowerCase (trim ''  0X12  ''))"
    by (simp add: isValidEvmAddress_def toLowerCase_def trim_def is_space_def lower_char_def)
  show ?thesis
    using h checkOwnershipAfter_rejects_invalid_input [of "''  0X12  ''", OF disjI1, OF h]
    by blast
qed


subsection \<open>The confirming transaction is the first match\<close>

text \<open>
  Claim C1. The scan of a page returns the first entry, in page order, of the page's
  transactions with their resolved timestamps that satisfies the four clauses, and null
  when there is none; the transactions whose criteria it logged are those entries up to
  and including that one. A returned transaction sits at a position of the page, the edges
  before it scan to null, and it satisfies the four clauses with the timestamp resolved for
  it. On the primary path the entries are a function of the page alone. A page with such
  an entry ends the search at once with that transaction; a page without one ends it with
  null or hands over to the next page. Over the whole search a returned transaction was
  evaluated last and none evaluated before it satisfies the clauses, and a confirmed check
  carries the hash of the transaction the search returned.
\<close>

theorem confirming_transaction_is_first_match:
  "(scanEdges env fb (toLowerCase userWallet) (toLowerCase targetWallet) afterTimestamp deadline
       es st = (r, st')
      \<longrightarrow> r = map_option (\<lambda>(txNode, ts). proofOf txNode ts)
                (find (four_clauses userWallet targetWallet afterTimestamp deadline)
                   (evaluated env fb es st))
          \<and> checked st' = checked st
              @ up_to_first (four_clauses userWallet targetWallet afterTimestamp deadline)
                  (evaluated env fb es st)
          \<and> (\<forall>found. r = Some found \<longrightarrow>
                (\<exists>pre txNode post sp.
                   es = pre @ Some txNode # post
                   \<and> scanEdges env fb (toLowerCase userWallet) (toLowerCase targetWallet)
                         afterTimestamp deadline pre st = (None, sp)
                   \<and> fst (resolveTimestamp env fb txNode sp) = Some (pt_timestamp found)
                   \<and> found = proofOf txNode (pt_timestamp found)
                   \<and> four_clauses userWallet targetWallet afterTimestamp deadline
                         (txNode, pt_timestamp found))))
   \<and> evaluated env False es st = List.map_filter (primary_entry env) es
   \<and> (fetchPage env (toLowerCase userWallet) cursor st = (PageFetched fb pg, st1)
      \<longrightarrow> scanEdges env fb (toLowerCase userWallet) (toLowerCase targetWallet) afterTimestamp
            deadline (edges pg) st1 = (r, st2)
      \<longrightarrow> pageLoop env (toLowerCase userWallet) (toLowerCase targetWallet) afterTimestamp
            deadline cursor st
          = (case find (four_clauses userWallet targetWallet afterTimestamp deadline)
                    (evaluated env fb (edges pg) st1) of
               Some (txNode, ts) \<Rightarrow> Some (Some (proofOf txNode ts), st2)
             | None \<Rightarrow>
                 (case nextCursorAfter env fb afterTimestamp pg of
                    None \<Rightarrow> Some (None, st2)
                  | Some c \<Rightarrow>
                      pageLoop env (toLowerCase userWallet) (toLowerCase targetWallet)
                        afterTimestamp deadline (Some c) st2)))
   \<and> (findProofTransactionGraphQL env userWallet targetWallet afterTimestamp deadline st
         = Some (r, st')
      \<longrightarrow> (\<exists>new. checked st' = checked st @ new
             \<and> first_match_trace (four_clauses userWallet targetWallet afterTimestamp deadline)
                  r new))
   \<and> (checkOwnershipAfter env walletHash afterTimestamp deadline targetWallet st
         = Some (res, st')
      \<longrightarrow> isProofConfirmed res
      \<longrightarrow> (\<exists>found. findProofTransactionGraphQL env (toLowerCase (trim walletHash)) targetWallet
                      afterTimestamp deadline st = Some (Some found, st')
                  \<and> txHash res = Some (pt_hash found)))"
proof (intro conjI impI allI)
  fix found
  assume "scanEdges env fb (toLowerCase userWallet) (toLowerCase targetWallet) afterTimestamp
            deadline es st = (r, st')" "r = Some found"
  then have "scanEdges env fb (toLowerCase userWallet) (toLowerCase targetWallet)
               afterTimestamp deadline es st = (Some found, st')"
    by simp
  from scanEdges_position[OF this]
  show "\<exists>pre txNode post sp.
                   es = pre @ Some txNode # post
                   \<and> scanEdges env fb (toLowerCase userWallet) (toLowerCase targetWallet)
                         afterTimestamp deadline pre st = (None, sp)
                   \<and> fst (resolveTimestamp env fb txNode sp) = Some (pt_timestamp found)
                   \<and> found = proofOf txNode (pt_timestamp found)
                   \<and> four_clauses userWallet targetWallet afterTimestamp deadline
                         (txNode, pt_timestamp found)"
    by (simp add: matchesCriteria_four_clauses)
next
  assume "scanEdges env fb (toLowerCase userWallet) (toLowerCase targetWallet) afterTimestamp
            deadline es st = (r, st')"
  from scanEdges_page_order[OF this]
  show "r = map_option (\<lambda>(txNode, ts). proofOf txNode ts)
                (find (four_clauses userWallet targetWallet afterTimestamp deadline)
                   (evaluated env fb es st))"
    "checked st' = checked st
              @ up_to_first (four_clauses userWallet targetWallet afterTimestamp deadline)
                  (evaluated env fb es st)"
    by (simp_all add: four_clauses_matches)
next
  show "evaluated env False es st = List.map_filter (primary_entry env) es"
    by (rule evaluated_primary)
next
  assume "fetchPage env (toLowerCase userWallet) cursor st = (PageFetched fb pg, st1)"
    "scanEdges env fb (toLowerCase userWallet) (toLowerCase targetWallet) afterTimestamp
       deadline (edges pg) st1 = (r, st2)"
  from pageLoop_page_step[OF this]
  show "pageLoop env (toLowerCase userWallet) (toLowerCase targetWallet) afterTimestamp
            deadline cursor st
          = (case find (four_clauses userWallet targetWallet afterTimestamp deadline)
                    (evaluated env fb (edges pg) st1) of
               Some (txNode, ts) \<Rightarrow> Some (Some (proofOf txNode ts), st2)
             | None \<Rightarrow>
                 (case nextCursorAfter env fb afterTimestamp pg of
                    None \<Rightarrow> Some (None, st2)
                  | Some c \<Rightarrow>
                      pageLoop env (toLowerCase userWallet) (toLowerCase targetWallet)
                        afterTimestamp deadline (Some c) st2))"
    by (simp add: four_clauses_matches)
next
  assume a: "findProofTransactionGraphQL env userWallet targetWallet afterTimestamp deadline st
         = Some (r, st')"
  from a pageLoop_trace[of env "toLowerCase userWallet" "toLowerCase targetWallet"
      afterTimestamp deadline None st "(r, st')"]
  show "\<exists>new. checked st' = checked st @ new
             \<and> first_match_trace (four_clauses userWallet targetWallet afterTimestamp deadline)
                  r new"
    by (simp add: findProofTransactionGraphQL_def four_clauses_matches)
next
  assume "checkOwnershipAfter env walletHash afterTimestamp deadline targetWallet st
         = Some (res, st')" "isProofConfirmed res"
  then show "\<exists>found. findProofTransactionGraphQL env (toLowerCase (trim walletHash)) targetWallet
                      afterTimestamp deadline st = Some (Some found, st')
                  \<and> txHash res = Some (pt_hash found)"
    by (rule checkOwnershipAfter_confirmed)
qed

theorem confirming_transaction_is_first_match_witness:
  "fetchPage one_page_explorer (toLowerCase sample_user) None empty_trace
     = (PageFetched False one_page,
        \<lparr>requests = [PrimaryQuery sample_user None], checked = []\<rparr>)
   \<and> find (four_clauses sample_user sample_target 1000 1900)
         (List.map_filter (primary_entry one_page_explorer) (edges one_page))
       = Some (sample_tx ''h2'' ''OK'' (Some ''T+10''), Num 1010)
   \<and> (\<exists>st2. findProofTransactionGraphQL one_page_explorer sample_user sample_target 1000 1900
                empty_trace
              = Some (Some (proofOf (sample_tx ''h2'' ''OK'' (Some ''T+10'')) (Num 1010)), st2)
            \<and> map fst (checked st2)
                = [sample_tx ''h1'' ''ERROR'' (Some ''T+10''),
                   sample_tx ''h2'' ''OK'' (Some ''T+10'')])"
proof -
  let ?s1 = "\<lparr>requests = [PrimaryQuery sample_user None], checked = []\<rparr>"
  have f: "fetchPage one_page_explorer (toLowerCase sample_user) None empty_trace
             = (PageFetched False one_page, ?s1)"
    by code_simp
  have m: "find (four_clauses sample_user sample_target 1000 1900)
             (List.map_filter (primary_entry one_page_explorer) (edges one_page))
           = Some (sample_tx ''h2'' ''OK'' (Some ''T+10''), Num 1010)"
    by code_simp
  obtain r st2 where
    sc: "scanEdges one_page_explorer False (toLowerCase sample_user) (toLowerCase sample_target)
           1000 1900 (edges one_page) ?s1 = (r, st2)"
    by (cases "scanEdges one_page_explorer False (toLowerCase sample_user)
                 (toLowerCase sample_target) 1000 1900 (edges one_page) ?s1")
  note t = confirming_transaction_is_first_match[where env = one_page_explorer
      and userWallet = sample_user and targetWallet = sample_target and afterTimestamp = 1000
      and deadline = 1900 and fb = False and es = "edges one_page" and st = ?s1
      and r = r and st' = st2]
  have e: "evaluated one_page_explorer False (edges one_page) ?s1
           = List.map_filter (primary_entry one_page_explorer) (edges one_page)"
    using t by simp
  have u: "up_to_first (four_clauses sample_user sample_target 1000 1900)
             (List.map_filter (primary_entry one_page_explorer) (edges one_page))
           = [(sample_tx ''h1'' ''ERROR'' (Some ''T+10''), Num 1010),
              (sample_tx ''h2'' ''OK'' (Some ''T+10''), Num 1010)]"
    by code_simp
  have c: "checked st2 = [(sample_tx ''h1'' ''ERROR'' (Some ''T+10''), Num 1010),
              (sample_tx ''h2'' ''OK'' (Some ''T+10''), Num 1010)]"
    using t sc e u by simp
  note p = confirming_transaction_is_first_match[where env = one_page_explorer
      and userWallet = sample_user and targetWallet = sample_target and afterTimestamp = 1000
      and deadline = 1900 and fb = False and pg = one_page and cursor = None
      and st = empty_trace and ?st1.0 = ?s1 and r = r and ?st2.0 = st2]
  have "pageLoop one_page_explorer (toLowerCase sample_user) (toLowerCase sample_target)
          1000 1900 None empty_trace
        = Some (Some (proofOf (sample_tx ''h2'' ''OK'' (Some ''T+10'')) (Num 1010)), st2)"
    using p f sc e m by simp
  then have "findProofTransactionGraphQL one_page_explorer sample_user sample_target 1000 1900
                empty_trace
              = Some (Some (proofOf (sample_tx ''h2'' ''OK'' (Some ''T+10'')) (Num 1010)), st2)"
    by (simp add: findProofTransactionGraphQL_def)
  with c have "\<exists>st2. findProofTransactionGraphQL one_page_explorer sample_user sample_target
                1000 1900 empty_trace
              = Some (Some (proofOf (sample_tx ''h2'' ''OK'' (Some ''T+10'')) (Num 1010)), st2)
            \<and> map fst (checked st2)
                = [sample_tx ''h1'' ''ERROR'' (Some ''T+10''),
                   sample_tx ''h2'' ''OK'' (Some ''T+10'')]"
    by (intro exI[of _ st2]) simp
  with f m show ?thesis by (intro conjI)
qed


subsection \<open>Terminal tasks\<close>

text \<open>
  Claim C2, as amended. In a table whose task identifiers are distinct (the \<open>UNIQUE\<close>
  constraint on \<open>task_uid\<close>), a row whose status is terminal when a phase begins is
  left as it is, field for field, by the reap phase, by the work phase, and by any number
  of cycles run one after the other; both selection queries return only rows whose status
  is \<open>pending\<close> or \<open>processing\<close>, a terminal row is none of those, and a work loop
  leaves every row whose identifier is not in its batch.
\<close>

theorem terminal_task_never_touched:
  assumes "distinct (map task_uid (tasks st))" "i < length (tasks st)"
    "terminal (status (tasks st ! i))"
  shows "tasks (handleStuckOrExpiredTasks env st) ! i = tasks st ! i
     \<and> (\<forall>st'. processPendingTasks env st = Some st' \<longrightarrow> tasks st' ! i = tasks st ! i)
     \<and> (\<forall>n st'. runCycles env n st = Some st' \<longrightarrow> tasks st' ! i = tasks st ! i)
     \<and> (\<forall>nowUtc found st'. getStuckAndExpiredTasks env nowUtc st = (Inr found, st')
            \<longrightarrow> list_all selectable found)
     \<and> (\<forall>limit found st'. findProcessableTasks env limit st = (Inr found, st')
            \<longrightarrow> list_all selectable found)
     \<and> \<not> selectable (tasks st ! i)
     \<and> (\<forall>now batch r st'. workLoop env now batch st = Some (r, st')
            \<longrightarrow> task_uid (tasks st ! i) \<notin> task_uid ` set batch
            \<longrightarrow> tasks st' ! i = tasks st ! i)"
proof -
  have ns: "\<not> selectable t" if "terminal (status t)" for t
    using that by (auto simp: selectable_def terminal_def)
  have cyc: "tasks st' ! i = tasks s ! i" if "runCycles env n s = Some st'"
    "distinct (map task_uid (tasks s))" "i < length (tasks s)" "terminal (status (tasks s ! i))"
    for n s st'
    using that
  proof (induction n arbitrary: s)
    case 0
    then show ?case by simp
  next
    case (Suc n)
    from Suc.prems(1) obtain s1 where
      c: "runFullCycle env s = Some s1" and r: "runCycles env n s1 = Some st'"
      by (auto split: option.splits)
    have k: "tasks s1 ! i = tasks s ! i \<and> map task_uid (tasks s1) = map task_uid (tasks s)"
      using c Suc.prems(2,3) ns[OF Suc.prems(4)] by (intro cycle_keeps_row) auto
    then have "distinct (map task_uid (tasks s1))" "i < length (tasks s1)"
      "terminal (status (tasks s1 ! i))"
      using Suc.prems(2,3,4) by (simp_all, metis length_map)
    from Suc.IH[OF r this] k show ?case by simp
  qed
  have q1: "list_all selectable found"
    if "getStuckAndExpiredTasks env nowUtc st = (Inr found, st')" for nowUtc found st'
    using that
    by (auto simp: getStuckAndExpiredTasks_def db_run_def Let_def selectable_def list_all_iff
             split: option.splits)
  have q2: "list_all selectable found"
    if "findProcessableTasks env limit st = (Inr found, st')" for limit found st'
    using that
    by (auto simp: findProcessableTasks_def read_clock_def db_run_def Let_def selectable_def
                   list_all_iff split: option.splits dest!: in_set_takeD)
  have wl: "tasks st' ! i = tasks st ! i"
    if "workLoop env now batch st = Some (r, st')"
       "task_uid (tasks st ! i) \<notin> task_uid ` set batch" for now batch r st'
    using writes_only_row[OF workLoop_writes_only[OF that(1)] assms(2) that(2)] .
  show ?thesis
    using reap_keeps_row[OF assms(1,2)] work_keeps_row[OF _ assms(1,2)] ns[OF assms(3)]
          cyc[OF _ assms] q1 q2 wl
    by blast
qed

theorem terminal_task_never_touched_witness:
  "distinct (map task_uid (tasks mixed_state)) \<and> 2 < length (tasks mixed_state)
   \<and> terminal (status (tasks mixed_state ! 2))
   \<and> (\<exists>st'. runCycles (sample_env unreachable_explorer 1005 no_faults) 2 mixed_state = Some st'
             \<and> tasks st' ! 2 = short_task ''t3'' ''44'' Success 2 1900
             \<and> map status (tasks st') = [Failed_no_tx, Processing, Success])"
proof -
  have h: "distinct (map task_uid (tasks mixed_state))" "2 < length (tasks mixed_state)"
    "terminal (status (tasks mixed_state ! 2))"
    by (simp_all add: mixed_state_def sample_state_def short_task_def terminal_def)
  have "map_option (\<lambda>s. map status (tasks s))
          (runCycles (sample_env unreachable_explorer 1005 no_faults) 2 mixed_state)
        = Some [Failed_no_tx, Processing, Success]"
    by code_simp
  then obtain st' where
    r: "runCycles (sample_env unreachable_explorer 1005 no_faults) 2 mixed_state = Some st'"
       "map status (tasks st') = [Failed_no_tx, Processing, Success]"
    by auto
  note t = terminal_task_never_touched[OF h,
      of "sample_env unreachable_explorer 1005 no_faults",
      THEN conjunct2, THEN conjunct2, THEN conjunct1, rule_format, OF r(1)]
  then have "tasks st' ! 2 = short_task ''t3'' ''44'' Success 2 1900"
    by (simp add: mixed_state_def sample_state_def)
  with h r show ?thesis by (intro conjI exI[of _ st']) simp_all
qed

text \<open>
  The claim as stated fails for a row that becomes terminal after the work phase has read
  it into its batch: the writes of the loop are keyed by \<open>task_uid\<close> and do not look at
  the status again. Here the work phase reads two tasks at 1870; while it checks the first,
  the reap phase of the next timer tick expires the second, whose deadline 1880 has passed;
  the loop then writes \<open>processing\<close>, the attempts and \<open>expired\<close> with another message
  to that row.
\<close>

theorem stale_batch_rewrites_terminal_task:
  "fst overlap_selected = Inr [sample_task ''t1'' ''42'' Pending 0, early_task]
   \<and> map_option
       (\<lambda>p. (row_summary 1 (handleStuckOrExpiredTasks overlap_env (snd p)),
              terminal (status (tasks (handleStuckOrExpiredTasks overlap_env (snd p)) ! 1)),
              map_option (\<lambda>q. row_summary 1 (snd q))
                (workLoop overlap_env 1870 [early_task]
                   (handleStuckOrExpiredTasks overlap_env (snd p)))))
       (workLoop overlap_env 1870 [sample_task ''t1'' ''42'' Pending 0] (snd overlap_selected))
     = Some ((Expired, 0, Some ''Task auto-expired by cleanup.''), True,
             Some (Expired, 1, Some ''Deadline passed, proof not found.''))"
  by code_simp


subsection \<open>The decision on a search without result\<close>

text \<open>
  Claim C3, as amended. Let \<open>processSingleTask\<close> reach the ownership check for a task (the
  challenge wallet is configured, the write of \<open>processing\<close> went through, the wallet
  decrypts) and let the check report \<open>isProofConfirmed = false\<close>. Then the call returns.
  When the deadline is not after the clock read after the check, it writes \<open>expired\<close>
  with the message of the passed deadline; otherwise, when the incremented attempts have
  reached \<open>PROOF_RETRY_LIMIT\<close>, it writes \<open>failed_no_tx\<close> with the message of the retry
  limit; otherwise the row stays \<open>processing\<close>, its message untouched. The row has the
  status and message written provided that update does not raise; when it raises, the
  handler writes \<open>error\<close> with the raised message instead. Both outcomes are terminal
  statuses and their messages differ.
\<close>

theorem not_confirmed_transitions:
  assumes cw: "CHECK_WALLET env = Some target" "target \<noteq> []"
    and w: "decryptWallet env (wallet_address_encrypted task) \<noteq> []"
    and chk: "checkOwnershipAfter (chain env) (decryptWallet env (wallet_address_encrypted task))
                (after_timestamp task) (check_deadline_utc task) target (net st)
              = Some (proofResult, net1)"
    and nc: "\<not> isProofConfirmed proofResult"
    and row: "i < length (tasks st)" "task_uid (tasks st ! i) = task_uid task"
    and ok: "db_fault env (length (statements st)) = None"
  shows "\<exists>r st'. processSingleTask env task st = Some (r, st')
      \<and> (if check_deadline_utc task \<le> clock env (clock_reads st) then
            written_or_error env (length (statements st) + 2) i Expired
              ''Deadline passed, proof not found.'' r st'
          else if attempts task + 1 \<ge> PROOF_RETRY_LIMIT then
            written_or_error env (length (statements st) + 2) i Failed_no_tx
              (max_retry_message (attempts task + 1)) r st'
          else r = Inr () \<and> status (tasks st' ! i) = Processing
               \<and> error_message (tasks st' ! i) = error_message (tasks st ! i))
      \<and> terminal Expired \<and> terminal Failed_no_tx
      \<and> ''Deadline passed, proof not found.'' \<noteq> max_retry_message (attempts task + 1)"
proof -
  from processSingleTask_not_confirmed[OF cw w chk nc row ok] obtain st4 where
    s4: "length (statements st4) = length (statements st) + 2"
        "length (tasks st4) = length (tasks st)"
        "task_uid (tasks st4 ! i) = task_uid task"
        "status (tasks st4 ! i) = Processing"
        "error_message (tasks st4 ! i) = error_message (tasks st ! i)"
    and e: "processSingleTask env task st =
          (if check_deadline_utc task \<le> clock env (clock_reads st) then
             (case updateProofTaskStatus env (task_uid task) Expired
                     (with_error ''Deadline passed, proof not found.'') st4 of
                (Inr u, s3) \<Rightarrow> Some (Inr (), s3)
              | (Inl msg, s3) \<Rightarrow>
                  Some (updateProofTaskStatus env (task_uid task) Error (with_error msg) s3))
           else if attempts task + 1 \<ge> PROOF_RETRY_LIMIT then
             (case updateProofTaskStatus env (task_uid task) Failed_no_tx
                     (with_error (max_retry_message (attempts task + 1))) st4 of
                (Inr u, s3) \<Rightarrow> Some (Inr (), s3)
              | (Inl msg, s3) \<Rightarrow>
                  Some (updateProofTaskStatus env (task_uid task) Error (with_error msg) s3))
           else Some (Inr (), st4))"
    by blast
  have i4: "i < length (tasks st4)" using row(1) s4(2) by simp
  note f = status_write_or_error[OF i4 s4(3,4), of env, unfolded s4(1)]
  have t: "terminal Expired" "terminal Failed_no_tx" by (simp_all add: terminal_def)
  show ?thesis
  proof (cases "check_deadline_utc task \<le> clock env (clock_reads st)")
    case True
    from f[of Expired "''Deadline passed, proof not found.''"] True e t show ?thesis
      by (auto simp: max_retry_message_differs)
  next
    case False
    show ?thesis
    proof (cases "attempts task + 1 \<ge> PROOF_RETRY_LIMIT")
      case True
      from f[of Failed_no_tx "max_retry_message (attempts task + 1)"] False True e t
      show ?thesis by (auto simp: max_retry_message_differs)
    next
      case nl: False
      with False e t s4 show ?thesis by (simp add: max_retry_message_differs)
    qed
  qed
qed

theorem not_confirmed_transitions_witness:
  "CHECK_WALLET (sample_env unreachable_explorer 1005 no_faults) = Some sample_target
   \<and> sample_target \<noteq> []
   \<and> decryptWallet (sample_env unreachable_explorer 1005 no_faults)
         (wallet_address_encrypted (short_task ''t1'' ''42'' Pending 6 1900)) = ''0x12''
   \<and> checkOwnershipAfter unreachable_explorer ''0x12'' 1000 1900 sample_target empty_trace
       = Some (\<lparr>isProofConfirmed = False, txHash = None,
                  error = Some ''Invalid user EVM address''\<rparr>, empty_trace)
   \<and> (\<exists>st'. processSingleTask (sample_env unreachable_explorer 1005 no_faults)
                (short_task ''t1'' ''42'' Pending 6 1900) (lone_state 6) = Some (Inr (), st')
             \<and> status (tasks st' ! 0) = Failed_no_tx
             \<and> error_message (tasks st' ! 0) = Some ''Max retry limit (7) reached. Attempts: 7'')
   \<and> (\<exists>st'. processSingleTask (sample_env unreachable_explorer 1005 status_update_fails)
                (short_task ''t1'' ''42'' Pending 6 1900) (lone_state 6) = Some (Inr (), st')
             \<and> status (tasks st' ! 0) = Error
             \<and> error_message (tasks st' ! 0) = Some ''database is locked'')"
proof -
  let ?env = "sample_env unreachable_explorer 1005 no_faults"
  let ?env2 = "sample_env unreachable_explorer 1005 status_update_fails"
  let ?task = "short_task ''t1'' ''42'' Pending 6 1900"
  have cw: "CHECK_WALLET ?env = Some sample_target" "sample_target \<noteq> []"
    by (simp_all add: sample_env_def sample_target_def)
  have cw2: "CHECK_WALLET ?env2 = Some sample_target"
    by (simp add: sample_env_def)
  have d: "decryptWallet ?env (wallet_address_encrypted ?task) = ''0x12''"
    by (simp add: sample_env_def short_task_def sample_decrypt_def)
  have c0: "checkOwnershipAfter unreachable_explorer ''0x12'' 1000 1900 sample_target empty_trace
       = Some (\<lparr>isProofConfirmed = False, txHash = None,
                  error = Some ''Invalid user EVM address''\<rparr>, empty_trace)"
    by code_simp
  have c: "checkOwnershipAfter (chain ?env) (decryptWallet ?env (wallet_address_encrypted ?task))
             (after_timestamp ?task) (check_deadline_utc ?task) sample_target
             (net (lone_state 6))
           = Some (\<lparr>isProofConfirmed = False, txHash = None,
                      error = Some ''Invalid user EVM address''\<rparr>, empty_trace)"
    using c0 d by (simp add: sample_env_def short_task_def lone_state_def sample_state_def)
  have c2: "checkOwnershipAfter (chain ?env2)
             (decryptWallet ?env2 (wallet_address_encrypted ?task))
             (after_timestamp ?task) (check_deadline_utc ?task) sample_target
             (net (lone_state 6))
           = Some (\<lparr>isProofConfirmed = False, txHash = None,
                      error = Some ''Invalid user EVM address''\<rparr>, empty_trace)"
    using c by (simp add: sample_env_def)
  have m: "max_retry_message 7 = ''Max retry limit (7) reached. Attempts: 7''"
    by code_simp
  have "\<exists>r st'. processSingleTask ?env ?task (lone_state 6) = Some (r, st')
      \<and> (if check_deadline_utc ?task \<le> clock ?env (clock_reads (lone_state 6)) then
            written_or_error ?env (length (statements (lone_state 6)) + 2) 0 Expired
              ''Deadline passed, proof not found.'' r st'
          else if attempts ?task + 1 \<ge> PROOF_RETRY_LIMIT then
            written_or_error ?env (length (statements (lone_state 6)) + 2) 0 Failed_no_tx
              (max_retry_message (attempts ?task + 1)) r st'
          else r = Inr () \<and> status (tasks st' ! 0) = Processing
               \<and> error_message (tasks st' ! 0) = error_message (tasks (lone_state 6) ! 0))
      \<and> terminal Expired \<and> terminal Failed_no_tx
      \<and> ''Deadline passed, proof not found.'' \<noteq> max_retry_message (attempts ?task + 1)"
    by (rule not_confirmed_transitions[OF cw _ c])
       (simp_all add: sample_env_def lone_state_def sample_state_def short_task_def
          no_faults_def sample_decrypt_def)
  then obtain r st' where
    "processSingleTask ?env ?task (lone_state 6) = Some (r, st')"
    "written_or_error ?env (length (statements (lone_state 6)) + 2) 0 Failed_no_tx
              (max_retry_message 7) r st'"
    by (auto simp: sample_env_def short_task_def PROOF_RETRY_LIMIT_def)
  then have e1: "\<exists>st'. processSingleTask ?env ?task (lone_state 6) = Some (Inr (), st')
             \<and> status (tasks st' ! 0) = Failed_no_tx
             \<and> error_message (tasks st' ! 0) = Some ''Max retry limit (7) reached. Attempts: 7''"
    using m
    by (intro exI[of _ st'])
       (simp add: written_or_error_def sample_env_def no_faults_def lone_state_def
          sample_state_def)
  have "\<exists>r st'. processSingleTask ?env2 ?task (lone_state 6) = Some (r, st')
      \<and> (if check_deadline_utc ?task \<le> clock ?env2 (clock_reads (lone_state 6)) then
            written_or_error ?env2 (length (statements (lone_state 6)) + 2) 0 Expired
              ''Deadline passed, proof not found.'' r st'
          else if attempts ?task + 1 \<ge> PROOF_RETRY_LIMIT then
            written_or_error ?env2 (length (statements (lone_state 6)) + 2) 0 Failed_no_tx
              (max_retry_message (attempts ?task + 1)) r st'
          else r = Inr () \<and> status (tasks st' ! 0) = Processing
               \<and> error_message (tasks st' ! 0) = error_message (tasks (lone_state 6) ! 0))
      \<and> terminal Expired \<and> terminal Failed_no_tx
      \<and> ''Deadline passed, proof not found.'' \<noteq> max_retry_message (attempts ?task + 1)"
    by (rule not_confirmed_transitions[OF cw2 cw(2) _ c2])
       (simp_all add: sample_env_def lone_state_def sample_state_def short_task_def
          status_update_fails_def sample_decrypt_def)
  then obtain r2 st2 where
    "processSingleTask ?env2 ?task (lone_state 6) = Some (r2, st2)"
    "written_or_error ?env2 (length (statements (lone_state 6)) + 2) 0 Failed_no_tx
              (max_retry_message 7) r2 st2"
    by (auto simp: sample_env_def short_task_def PROOF_RETRY_LIMIT_def)
  then have e2: "\<exists>st'. processSingleTask ?env2 ?task (lone_state 6) = Some (Inr (), st')
             \<and> status (tasks st' ! 0) = Error
             \<and> error_message (tasks st' ! 0) = Some ''database is locked''"
    by (intro exI[of _ st2])
       (simp add: written_or_error_def sample_env_def status_update_fails_def lone_state_def
          sample_state_def)
  show ?thesis by (rule conjI[OF cw(1) conjI[OF cw(2) conjI[OF d conjI[OF c0 conjI[OF e1 e2]]]]])
qed

text \<open>
  The claim as stated fails when the update that writes the outcome raises: the search
  finds nothing, the seventh attempt has reached the retry limit, and the task ends in
  \<open>error\<close> with the message of the database, not in \<open>failed_no_tx\<close>.
\<close>

theorem raised_status_update_ends_in_error:
  "map_option (\<lambda>p. isProofConfirmed (fst p))
     (checkOwnershipAfter empty_history_explorer sample_user 1000 1900 sample_target empty_trace)
     = Some False
   \<and> map_option (\<lambda>p. (status (tasks (snd p) ! 0), attempts (tasks (snd p) ! 0),
                        error_message (tasks (snd p) ! 0)))
       (processSingleTask (sample_env empty_history_explorer 1005 status_update_fails)
          (sample_task ''t1'' ''42'' Pending 6) last_attempt_state)
     = Some (Error, 7, Some ''database is locked'')"
  by code_simp


text \<open>
  Claim C5, as amended. A page fetch sends the primary query between one and five times
  and then the fallback query at most five times, all for the same wallet and cursor. The
  fallback is tried exactly when the last primary answer is an HTTP 500 error or names an
  internal server error in its body; no earlier primary answer is of that kind, so the
  switch is made at the first such answer. Every other failed primary attempt is retried
  on the primary query. The fetch fails exactly when the fallback was tried five times
  without a page, or when it was never tried and five primary attempts gave no page.
\<close>

theorem fetchPage_fallback_policy:
  assumes "fetchPage env user cursor st = (r, st')"
  shows "\<exists>p f. 1 \<le> p \<and> p \<le> MAX_API_CALL_ATTEMPTS \<and> f \<le> MAX_API_CALL_ATTEMPTS
           \<and> requests st' = requests st @ replicate p (PrimaryQuery user cursor)
                                 @ replicate f (FallbackQuery user cursor)
           \<and> (\<forall>j. j + 1 < p \<longrightarrow>
                  \<not> triggersFallback
                      (explorer env (length (requests st) + j) (PrimaryQuery user cursor)))
           \<and> (0 < f) = triggersFallback
                 (explorer env (length (requests st) + p - 1) (PrimaryQuery user cursor))
           \<and> (r = PageFailed) =
               (if 0 < f
                then f = MAX_API_CALL_ATTEMPTS
                     \<and> pageOf (explorer env (length (requests st) + p + f - 1)
                                (FallbackQuery user cursor)) = None
                else p = MAX_API_CALL_ATTEMPTS
                     \<and> pageOf (explorer env (length (requests st) + p - 1)
                                (PrimaryQuery user cursor)) = None)"
proof -
  have pos: "0 < MAX_API_CALL_ATTEMPTS" by (simp add: MAX_API_CALL_ATTEMPTS_def)
  obtain po st1 where pa: "primaryAttempts env user cursor 0 st = (po, st1)"
    by (cases "primaryAttempts env user cursor 0 st")
  from primaryAttempts_trace[OF pa pos] obtain p where
    pp: "1 \<le> p" "p \<le> MAX_API_CALL_ATTEMPTS"
        "requests st1 = requests st @ replicate p (PrimaryQuery user cursor)"
        "primary_result (explorer env (length (requests st) + p - 1) (PrimaryQuery user cursor)) p po"
        "\<forall>j. j + 1 < p \<longrightarrow>
            \<not> triggersFallback (explorer env (length (requests st) + j) (PrimaryQuery user cursor))"
    by auto
  show ?thesis
  proof (cases po)
    case (PrimaryData pg)
    with assms pa have "r = PageFetched False pg" "st' = st1" by (simp_all add: fetchPage_def)
    with pp PrimaryData show ?thesis
      by (intro exI[of _ p] exI[of _ 0]) (auto simp: primary_result_def)
  next
    case PrimaryExhausted
    with assms pa have "r = PageFailed" "st' = st1" by (simp_all add: fetchPage_def)
    with pp PrimaryExhausted show ?thesis
      by (intro exI[of _ p] exI[of _ 0]) (auto simp: primary_result_def)
  next
    case PrimaryTriggersFallback
    obtain fo st2 where fa: "fallbackAttempts env user cursor 0 st1 = (fo, st2)"
      by (cases "fallbackAttempts env user cursor 0 st1")
    from fallbackAttempts_trace[OF fa pos] obtain f where
      ff: "1 \<le> f" "f \<le> MAX_API_CALL_ATTEMPTS"
          "requests st2 = requests st1 @ replicate f (FallbackQuery user cursor)"
          "fallback_result (explorer env (length (requests st1) + f - 1) (FallbackQuery user cursor)) f fo"
      by auto
    have len: "length (requests st1) + f - 1 = length (requests st) + p + f - 1"
      using pp(3) by simp
    have st': "st' = st2" and r: "r = (case fo of Some pg \<Rightarrow> PageFetched True pg | None \<Rightarrow> PageFailed)"
      using assms pa fa PrimaryTriggersFallback
      by (auto simp: fetchPage_def split: option.splits)
    show ?thesis
      using pp ff len st' r PrimaryTriggersFallback
      by (intro exI[of _ p] exI[of _ f])
         (auto simp: primary_result_def fallback_result_def split: option.splits)
  qed
qed

theorem fetchPage_fallback_policy_witness:
  "fetchPage fallback_only_explorer sample_user None empty_trace
     = (PageFetched True \<lparr>edges = [Some (sample_tx ''h2'' ''OK'' None)], pageInfo = None\<rparr>,
        \<lparr>requests = [PrimaryQuery sample_user None, FallbackQuery sample_user None],
          checked = []\<rparr>)
   \<and> (\<exists>p f. 1 \<le> p \<and> p \<le> MAX_API_CALL_ATTEMPTS \<and> f \<le> MAX_API_CALL_ATTEMPTS
           \<and> requests \<lparr>requests = [PrimaryQuery sample_user None, FallbackQuery sample_user None],
                         checked = []\<rparr>
               = requests empty_trace @ replicate p (PrimaryQuery sample_user None)
                                 @ replicate f (FallbackQuery sample_user None)
           \<and> 0 < f)"
proof -
  have h: "fetchPage fallback_only_explorer sample_user None empty_trace
     = (PageFetched True \<lparr>edges = [Some (sample_tx ''h2'' ''OK'' None)], pageInfo = None\<rparr>,
        \<lparr>requests = [PrimaryQuery sample_user None, FallbackQuery sample_user None],
          checked = []\<rparr>)"
    by code_simp
  have t: "triggersFallback (explorer fallback_only_explorer k (PrimaryQuery sample_user None))" for k
    by (simp add: fallback_only_explorer_def triggersFallback_def)
  from fetchPage_fallback_policy[OF h] t h show ?thesis by auto
qed


text \<open>
  The claim as stated fails on a transport error that carries no HTTP status 500 (a
  timeout, a refused connection): the primary query is retried five times, the fallback
  query is never sent, and the page fetch fails.
\<close>

theorem transport_error_without_fallback:
  "explorer unreachable_explorer 0 (PrimaryQuery sample_user None) = HttpError None
   \<and> fetchPage unreachable_explorer sample_user None empty_trace
       = (PageFailed, \<lparr>requests = replicate 5 (PrimaryQuery sample_user None), checked = []\<rparr>)"
  by code_simp



text \<open>
  Claim C6. The source takes the last edge of a page for its oldest transaction: it
  compares \<open>edges[edges.length - 1]\<close> with \<open>afterTimestamp\<close> and nothing else. On the
  page \<open>unsorted_page\<close> of the primary query, whose first transaction is older than
  \<open>afterTimestamp\<close> and whose last one is not, the oldest transaction observed is below
  \<open>afterTimestamp\<close> and the search requests the next page all the same. On
  \<open>newest_first_page\<close>, the same two transactions in the other order, it stops after the
  page.
\<close>

theorem early_exit_misses_older_transaction:
  "fetchPage unsorted_explorer sample_user None empty_trace
     = (PageFetched False unsorted_page,
        \<lparr>requests = [PrimaryQuery sample_user None], checked = []\<rparr>)
   \<and> oldest_observed_below unsorted_explorer unsorted_page 1000
   \<and> map_option (\<lambda>(r, s). requests s)
        (findProofTransactionGraphQL unsorted_explorer sample_user sample_target 1000 1900
           empty_trace)
       = Some [PrimaryQuery sample_user None, PrimaryQuery sample_user (Some ''c1'')]
   \<and> oldest_observed_below newest_first_explorer newest_first_page 1000
   \<and> map_option (\<lambda>(r, s). requests s)
        (findProofTransactionGraphQL newest_first_explorer sample_user sample_target 1000 1900
           empty_trace)
       = Some [PrimaryQuery sample_user None]"
  by code_simp


subsection \<open>The attempts counter\<close>

text \<open>
  Claim C7, as amended. Over a whole cycle on a table of distinct task ids no row's
  attempts decrease and none grows by more than one. A call of \<open>processSingleTask\<close> for a
  task whose row holds the task's attempts invokes the ownership check at most once; when
  it does, the row's attempts are the task's attempts plus one provided the statement that
  writes them does not raise, and are unchanged when it raises, the check running all the
  same. On the already-proofed path of the work loop the check is not invoked and no row's
  attempts change.
\<close>

theorem attempts_counting:
  "(runFullCycle env st = Some st' \<longrightarrow> distinct (map task_uid (tasks st))
      \<longrightarrow> attempts_grow st st')
   \<and> (processSingleTask env task st = Some (r, st') \<longrightarrow> i < length (tasks st)
      \<longrightarrow> task_uid (tasks st ! i) = task_uid task \<longrightarrow> attempts (tasks st ! i) = attempts task
      \<longrightarrow> (locator_calls st' = locator_calls st \<or> locator_calls st' = locator_calls st + 1)
          \<and> (locator_calls st' = locator_calls st + 1 \<longrightarrow>
                attempts (tasks st' ! i)
                  = (if db_fault env (length (statements st) + 1) = None
                     then attempts task + 1 else attempts task))
          \<and> (locator_calls st' = locator_calls st \<longrightarrow>
                attempts (tasks st' ! i) = attempts task
                \<or> attempts (tasks st' ! i) = attempts task + 1))
   \<and> (workLoop env now [task] st = Some (r, st') \<longrightarrow> check_deadline_utc task > now
      \<longrightarrow> getWallet env (telegram_id task) st = (Inr (Some link), st1) \<longrightarrow> proofed link
      \<longrightarrow> locator_calls st' = locator_calls st
          \<and> map attempts (tasks st') = map attempts (tasks st))"
proof (intro conjI impI)
  assume "runFullCycle env st = Some st'" "distinct (map task_uid (tasks st))"
  then show "attempts_grow st st'" by (rule runFullCycle_attempts_grow)
next
  assume a: "processSingleTask env task st = Some (r, st')" "i < length (tasks st)"
    "task_uid (tasks st ! i) = task_uid task" "attempts (tasks st ! i) = attempts task"
  note f = processSingleTask_attempts[OF a(1)]
  show "locator_calls st' = locator_calls st \<or> locator_calls st' = locator_calls st + 1"
    using f by simp
  show "attempts (tasks st' ! i) = attempts task \<or> attempts (tasks st' ! i) = attempts task + 1"
    using f a(2,3,4) by auto
  assume "locator_calls st' = locator_calls st + 1"
  with f a(2,3,4) show "attempts (tasks st' ! i)
                  = (if db_fault env (length (statements st) + 1) = None
                     then attempts task + 1 else attempts task)"
    by auto
next
  assume a: "workLoop env now [task] st = Some (r, st')" "check_deadline_utc task > now"
    "getWallet env (telegram_id task) st = (Inr (Some link), st1)" "proofed link"
  have k1: "attempts_kept st st1" using a(3) by (rule getWallet_attempts_kept)
  obtain r2 st2 where u: "updateProofTaskStatus env (task_uid task) Success
      (with_error ''Wallet already proofed.'') st1 = (r2, st2)"
    by (cases "updateProofTaskStatus env (task_uid task) Success
      (with_error ''Wallet already proofed.'') st1")
  have k2: "attempts_kept st st2"
    using attempts_kept_trans[OF k1 updateProofTaskStatus_attempts_kept[OF u]] .
  obtain r3 st3 where sv: "saveWalletLink env (telegram_id task) (wallet link) True
      (Some (telegram_id task)) st2 = (r3, st3)"
    by (cases "saveWalletLink env (telegram_id task) (wallet link) True
      (Some (telegram_id task)) st2")
  have k3: "attempts_kept st st3"
    using attempts_kept_trans[OF k2 saveWalletLink_attempts_kept[OF sv]] .
  from a u sv have "st' = st2 \<or> st' = st3"
    by (cases r2; cases r3) (auto split: if_splits)
  with k2 k3 have "attempts_kept st st'" by auto
  then show "locator_calls st' = locator_calls st"
    "map attempts (tasks st') = map attempts (tasks st)"
    by (simp_all add: attempts_kept_def)
qed

theorem attempts_counting_witness:
  "distinct (map task_uid (tasks mixed_state))
   \<and> (\<exists>st'. runFullCycle (sample_env unreachable_explorer 1005 no_faults) mixed_state = Some st'
          \<and> attempts_grow mixed_state st' \<and> map attempts (tasks st') = [7, 3, 2])
   \<and> (\<exists>r st'. processSingleTask (sample_env unreachable_explorer 1005 no_faults)
                   (short_task ''t1'' ''42'' Pending 0 1900) (lone_state 0) = Some (r, st')
          \<and> locator_calls st' = 1 \<and> attempts (tasks st' ! 0) = 1)
   \<and> (\<exists>r st'. workLoop (sample_env unreachable_explorer 1005 no_faults) 1005
                   [short_task ''t1'' ''42'' Pending 0 1900] proofed_state = Some (r, st')
          \<and> locator_calls st' = 0 \<and> map attempts (tasks st') = [0])"
proof -
  let ?env = "sample_env unreachable_explorer 1005 no_faults"
  let ?task = "short_task ''t1'' ''42'' Pending 0 1900"
  have d: "distinct (map task_uid (tasks mixed_state))"
    by (simp add: mixed_state_def sample_state_def short_task_def)
  have "map_option (\<lambda>s. map attempts (tasks s)) (runFullCycle ?env mixed_state) = Some [7, 3, 2]"
    by code_simp
  then obtain s1 where
    c: "runFullCycle ?env mixed_state = Some s1" "map attempts (tasks s1) = [7, 3, 2]"
    by auto
  have g: "attempts_grow mixed_state s1"
    using attempts_counting[where env = ?env and st = mixed_state and st' = s1] c(1) d by simp
  have "map_option (\<lambda>p. locator_calls (snd p)) (processSingleTask ?env ?task (lone_state 0))
        = Some 1"
    by code_simp
  then obtain r2 s2 where
    p: "processSingleTask ?env ?task (lone_state 0) = Some (r2, s2)" "locator_calls s2 = 1"
    by auto
  have a: "attempts (tasks s2 ! 0) = 1"
    using attempts_counting[where env = ?env and st = "lone_state 0" and st' = s2
                               and task = ?task and r = r2 and i = 0] p
    by (simp add: lone_state_def sample_state_def short_task_def sample_env_def no_faults_def)
  have "case getWallet ?env (telegram_id ?task) proofed_state of
          (Inr (Some l), s) \<Rightarrow> proofed l | _ \<Rightarrow> False"
    by code_simp
  then obtain l s3 where
    w: "getWallet ?env (telegram_id ?task) proofed_state = (Inr (Some l), s3)" "proofed l"
    by (auto split: prod.splits sum.splits option.splits)
  have "workLoop ?env 1005 [?task] proofed_state \<noteq> None" by code_simp
  then obtain r4 s4 where l: "workLoop ?env 1005 [?task] proofed_state = Some (r4, s4)"
    by auto
  have k: "locator_calls s4 = 0" "map attempts (tasks s4) = [0]"
    using attempts_counting[where env = ?env and st = proofed_state and st' = s4
                               and task = ?task and r = r4 and now = 1005
                               and link = l and ?st1.0 = s3] l w
    by (simp_all add: proofed_state_def sample_state_def short_task_def)
  from d c g p a l k show ?thesis
    by (intro conjI exI[of _ s1] exI[of _ r2] exI[of _ s2] exI[of _ r4] exI[of _ s4]) simp_all
qed

text \<open>
  The claim as stated fails when the statement that writes the attempts raises: the error
  is caught and logged by \<open>processSingleTask\<close>, the ownership check is invoked and sends
  its request, and the attempts of the task stay at zero.
\<close>

theorem check_without_increment:
  "map_option (\<lambda>s. (locator_calls s, requests (net s), attempts (tasks s ! 0), statements s ! 3))
     (processPendingTasks (sample_env empty_history_explorer 1005 attempts_update_fails)
        fresh_state)
   = Some (1, [PrimaryQuery sample_user None], 0, UpdateAttempts ''t1'' 1)"
  by code_simp


subsection \<open>Error messages\<close>

text \<open>
  Claim C8, as amended. Every statement of the reap phase and of \<open>processSingleTask\<close> that
  writes an error message writes it with status \<open>error\<close>, \<open>expired\<close> or
  \<open>failed_no_tx\<close>; so the \<open>success\<close> written after a confirmed proof carries none. For
  the task at the head of its batch the work loop runs such statements only, except on the
  already-proofed path, where it writes \<open>success\<close> with the note
  \<open>Wallet already proofed.\<close> right after the wallet lookup; the rest of the batch is
  handled the same way. So every statement of a work phase or of a whole cycle that writes
  a message does so with one of the three statuses or is that write; a status update
  without an error message leaves the column as it is.
\<close>

theorem error_message_writes:
  "appends message_strict st (handleStuckOrExpiredTasks env st)
   \<and> (processSingleTask env task st = Some (r, st') \<longrightarrow> appends message_strict st st')
   \<and> (workLoop env now (task # rest) st = Some (r, st') \<longrightarrow>
        (\<exists>s1. appends (head_statement env task now st) st s1
              \<and> (st' = s1 \<or> workLoop env now rest s1 = Some (r, st')))
        \<and> (already_proofed env task now st \<longrightarrow>
              (\<exists>new. statements st' = statements st
                 @ [SelectWallet (hashTelegramId env (telegram_id task)), note_write task]
                 @ new)))
   \<and> (processPendingTasks env st = Some st' \<longrightarrow> appends message_allowed st st')
   \<and> (runFullCycle env st = Some st' \<longrightarrow> appends message_allowed st st')
   \<and> (errorMessage d = None \<longrightarrow> error_message (apply_status s d ts t) = error_message t)"
proof (intro conjI impI)
  show "appends message_strict st (handleStuckOrExpiredTasks env st)"
    by (rule handleStuckOrExpiredTasks_strict)
next
  assume "processSingleTask env task st = Some (r, st')"
  then show "appends message_strict st st'" by (rule processSingleTask_strict)
next
  assume "workLoop env now (task # rest) st = Some (r, st')"
  then show "\<exists>s1. appends (head_statement env task now st) st s1
              \<and> (st' = s1 \<or> workLoop env now rest s1 = Some (r, st'))"
    by (rule workLoop_head_statements)
next
  assume "workLoop env now (task # rest) st = Some (r, st')"
    "already_proofed env task now st"
  then show "\<exists>new. statements st' = statements st
                 @ [SelectWallet (hashTelegramId env (telegram_id task)), note_write task]
                 @ new"
    by (rule workLoop_note_written)
next
  assume "processPendingTasks env st = Some st'"
  then show "appends message_allowed st st'" by (rule processPendingTasks_appends)
next
  assume "runFullCycle env st = Some st'"
  then have "processPendingTasks env (handleStuckOrExpiredTasks env st) = Some st'"
    by (simp add: runFullCycle_def)
  from appends_trans[OF handleStuckOrExpiredTasks_appends processPendingTasks_appends[OF this]]
  show "appends message_allowed st st'" .
next
  assume "errorMessage d = None"
  then show "error_message (apply_status s d ts t) = error_message t"
    by (simp add: apply_status_def)
qed

theorem error_message_writes_witness:
  "already_proofed (sample_env unreachable_explorer 1005 no_faults)
     (short_task ''t1'' ''42'' Pending 0 1900) 1005 proofed_state
   \<and> (\<exists>r st'. workLoop (sample_env unreachable_explorer 1005 no_faults) 1005
                 [short_task ''t1'' ''42'' Pending 0 1900] proofed_state = Some (r, st')
          \<and> take 2 (statements st')
              = [SelectWallet ''ht:42'', note_write (short_task ''t1'' ''42'' Pending 0 1900)])
   \<and> (\<exists>r st'. processSingleTask (sample_env unreachable_explorer 1005 no_faults)
                 (short_task ''t1'' ''42'' Pending 0 1900) (lone_state 0) = Some (r, st')
          \<and> appends message_strict (lone_state 0) st')
   \<and> (\<exists>st'. runFullCycle (sample_env unreachable_explorer 1005 no_faults) proofed_state = Some st'
         \<and> appends message_allowed proofed_state st'
         \<and> map status (tasks st') = [Success])"
proof -
  let ?env = "sample_env unreachable_explorer 1005 no_faults"
  let ?task = "short_task ''t1'' ''42'' Pending 0 1900"
  have ap: "already_proofed ?env ?task 1005 proofed_state" by code_simp
  have "workLoop ?env 1005 [?task] proofed_state \<noteq> None" by code_simp
  then obtain r1 s1 where w: "workLoop ?env 1005 [?task] proofed_state = Some (r1, s1)"
    by auto
  note t1 = error_message_writes[where env = ?env and st = proofed_state and task = ?task
      and now = 1005 and rest = "[]" and r = r1 and st' = s1]
  from t1 w ap obtain new where
    "statements s1 = statements proofed_state
       @ [SelectWallet (hashTelegramId ?env (telegram_id ?task)), note_write ?task] @ new"
    by blast
  then have k: "take 2 (statements s1) = [SelectWallet ''ht:42'', note_write ?task]"
    by (simp add: proofed_state_def sample_state_def sample_env_def short_task_def)
  have e1: "\<exists>r st'. workLoop ?env 1005 [?task] proofed_state = Some (r, st')
          \<and> take 2 (statements st') = [SelectWallet ''ht:42'', note_write ?task]"
    using w k by (intro exI[of _ r1] exI[of _ s1]) simp
  have "processSingleTask ?env ?task (lone_state 0) \<noteq> None" by code_simp
  then obtain r2 s2 where p: "processSingleTask ?env ?task (lone_state 0) = Some (r2, s2)"
    by auto
  note t2 = error_message_writes[where env = ?env and st = "lone_state 0" and task = ?task
      and r = r2 and st' = s2]
  have "appends message_strict (lone_state 0) s2" using t2 p by simp
  with p have e2: "\<exists>r st'. processSingleTask ?env ?task (lone_state 0) = Some (r, st')
          \<and> appends message_strict (lone_state 0) st'"
    by (intro exI[of _ r2] exI[of _ s2]) simp
  have "map_option (\<lambda>s. map status (tasks s)) (runFullCycle ?env proofed_state)
        = Some [Success]"
    by code_simp
  then obtain s3 where
    c: "runFullCycle ?env proofed_state = Some s3" "map status (tasks s3) = [Success]"
    by auto
  note t3 = error_message_writes[where env = ?env and st = proofed_state and st' = s3]
  have "appends message_allowed proofed_state s3" using t3 c(1) by simp
  with c have e3: "\<exists>st'. runFullCycle ?env proofed_state = Some st'
         \<and> appends message_allowed proofed_state st' \<and> map status (tasks st') = [Success]"
    by (intro exI[of _ s3]) simp
  show ?thesis by (rule conjI[OF ap conjI[OF e1 conjI[OF e2 e3]]])
qed

text \<open>
  The claim as stated fails on the already-proofed path: the task of a user whose wallet
  link is marked proofed is written \<open>success\<close> together with an error message.
\<close>

theorem success_written_with_error_message:
  "map_option (\<lambda>s. (statements s ! 3, status (tasks s ! 0), error_message (tasks s ! 0)))
     (runFullCycle (sample_env unreachable_explorer 1005 no_faults) proofed_state)
   = Some (UpdateStatus ''t1'' Success (with_error ''Wallet already proofed.''),
           Success, Some ''Wallet already proofed.'')"
  by code_simp



subsection \<open>The second of the deadline\<close>

text \<open>
  Claim C9, as amended. Take a \<open>pending\<close> or \<open>processing\<close> task whose deadline is the
  second the clock shows. The reap query (deadline strictly below now) does not return it
  and the work query (deadline strictly above now) does not return it; in a table of
  distinct task identifiers a cycle whose selecting readings of the clock all show that
  second leaves its row as it is. A work phase that selected the task at an earlier second
  is another matter: when the clock read after the check shows the deadline, the test
  \<open>check_deadline_utc <= nowUtc\<close> holds and the task is written \<open>expired\<close>.
\<close>

theorem deadline_second_is_quiet:
  "(distinct (map task_uid (tasks st)) \<longrightarrow> i < length (tasks st)
      \<longrightarrow> selectable (tasks st ! i)
      \<longrightarrow> (\<forall>k. clock_reads st \<le> k \<longrightarrow> k < clock_reads st + 3
             \<longrightarrow> clock env k = check_deadline_utc (tasks st ! i))
      \<longrightarrow> runFullCycle env st = Some st' \<longrightarrow> tasks st' ! i = tasks st ! i)
   \<and> (getStuckAndExpiredTasks env (check_deadline_utc (tasks st ! i)) st = (Inr found, st')
      \<longrightarrow> tasks st ! i \<notin> set found)
   \<and> (clock env (clock_reads st) = check_deadline_utc (tasks st ! i)
      \<longrightarrow> findProcessableTasks env limit st = (Inr found, st')
      \<longrightarrow> tasks st ! i \<notin> set found)
   \<and> (CHECK_WALLET env = Some target \<longrightarrow> target \<noteq> []
      \<longrightarrow> decryptWallet env (wallet_address_encrypted task) \<noteq> []
      \<longrightarrow> checkOwnershipAfter (chain env) (decryptWallet env (wallet_address_encrypted task))
            (after_timestamp task) (check_deadline_utc task) target (net st)
          = Some (proofResult, net1)
      \<longrightarrow> \<not> isProofConfirmed proofResult
      \<longrightarrow> i < length (tasks st) \<longrightarrow> task_uid (tasks st ! i) = task_uid task
      \<longrightarrow> db_fault env (length (statements st)) = None
      \<longrightarrow> clock env (clock_reads st) = check_deadline_utc task
      \<longrightarrow> (\<exists>r s. processSingleTask env task st = Some (r, s)
             \<and> written_or_error env (length (statements st) + 2) i Expired
                  ''Deadline passed, proof not found.'' r s))"
proof (intro conjI impI)
  assume a: "distinct (map task_uid (tasks st))" "i < length (tasks st)"
    "selectable (tasks st ! i)"
    "\<forall>k. clock_reads st \<le> k \<longrightarrow> k < clock_reads st + 3
          \<longrightarrow> clock env k = check_deadline_utc (tasks st ! i)"
    and c: "runFullCycle env st = Some st'"
  have k: "clock env (clock_reads st) = check_deadline_utc (tasks st ! i)"
    "clock env (clock_reads st + 1) = check_deadline_utc (tasks st ! i)"
    "clock env (clock_reads st + 2) = check_deadline_utc (tasks st ! i)"
    using a(4) by simp_all
  show "tasks st' ! i = tasks st ! i"
    using cycle_keeps_row[OF c a(1,2)] k by simp
next
  assume "getStuckAndExpiredTasks env (check_deadline_utc (tasks st ! i)) st = (Inr found, st')"
  then show "tasks st ! i \<notin> set found"
    by (auto simp: getStuckAndExpiredTasks_def db_run_def Let_def split: option.splits)
next
  assume k: "clock env (clock_reads st) = check_deadline_utc (tasks st ! i)"
    and f: "findProcessableTasks env limit st = (Inr found, st')"
  from f k show "tasks st ! i \<notin> set found"
    by (auto simp: findProcessableTasks_def read_clock_def db_run_def Let_def
             split: option.splits dest!: in_set_takeD)
next
  assume cw: "CHECK_WALLET env = Some target" "target \<noteq> []"
    and w: "decryptWallet env (wallet_address_encrypted task) \<noteq> []"
    and chk: "checkOwnershipAfter (chain env) (decryptWallet env (wallet_address_encrypted task))
                (after_timestamp task) (check_deadline_utc task) target (net st)
              = Some (proofResult, net1)"
    and nc: "\<not> isProofConfirmed proofResult"
    and row: "i < length (tasks st)" "task_uid (tasks st ! i) = task_uid task"
    and ok: "db_fault env (length (statements st)) = None"
    and k: "clock env (clock_reads st) = check_deadline_utc task"
  from processSingleTask_not_confirmed[OF cw w chk nc row ok] k obtain st4 where
    s4: "length (statements st4) = length (statements st) + 2"
        "length (tasks st4) = length (tasks st)"
        "task_uid (tasks st4 ! i) = task_uid task"
        "status (tasks st4 ! i) = Processing"
    and e: "processSingleTask env task st =
             (case updateProofTaskStatus env (task_uid task) Expired
                     (with_error ''Deadline passed, proof not found.'') st4 of
                (Inr u, s3) \<Rightarrow> Some (Inr (), s3)
              | (Inl msg, s3) \<Rightarrow>
                  Some (updateProofTaskStatus env (task_uid task) Error (with_error msg) s3))"
    by auto
  have i4: "i < length (tasks st4)" using row(1) s4(2) by simp
  from status_write_or_error[OF i4 s4(3,4), of env Expired
         "''Deadline passed, proof not found.''", unfolded s4(1)] e
  show "\<exists>r s. processSingleTask env task st = Some (r, s)
             \<and> written_or_error env (length (statements st) + 2) i Expired
                  ''Deadline passed, proof not found.'' r s"
    by simp
qed

theorem deadline_second_is_quiet_witness:
  "distinct (map task_uid (tasks mixed_state)) \<and> 1 < length (tasks mixed_state)
   \<and> selectable (tasks mixed_state ! 1)
   \<and> check_deadline_utc (tasks mixed_state ! 1) = 1500
   \<and> (\<exists>st'. runFullCycle (sample_env unreachable_explorer 1500 no_faults) mixed_state = Some st'
             \<and> tasks st' ! 1 = short_task ''t2'' ''43'' Processing 2 1500
             \<and> map status (tasks st') = [Failed_no_tx, Processing, Success])
   \<and> (\<exists>st'. processSingleTask (sample_env unreachable_explorer 1500 no_faults)
                (short_task ''t2'' ''43'' Processing 2 1500) mixed_state = Some (Inr (), st')
             \<and> status (tasks st' ! 1) = Expired)"
proof -
  let ?env = "sample_env unreachable_explorer 1500 no_faults"
  let ?task = "short_task ''t2'' ''43'' Processing 2 1500"
  have h: "distinct (map task_uid (tasks mixed_state))" "1 < length (tasks mixed_state)"
    "selectable (tasks mixed_state ! 1)"
    by (simp_all add: mixed_state_def sample_state_def short_task_def selectable_def)
  have d: "check_deadline_utc (tasks mixed_state ! 1) = 1500"
    by (simp add: mixed_state_def sample_state_def short_task_def)
  have c: "\<forall>k. clock_reads mixed_state \<le> k \<longrightarrow> k < clock_reads mixed_state + 3
          \<longrightarrow> clock ?env k = check_deadline_utc (tasks mixed_state ! 1)"
    using d by (simp add: sample_env_def)
  have "map_option (\<lambda>s. map status (tasks s)) (runFullCycle ?env mixed_state)
          = Some [Failed_no_tx, Processing, Success]"
    by code_simp
  then obtain st' where r: "runFullCycle ?env mixed_state = Some st'"
    "map status (tasks st') = [Failed_no_tx, Processing, Success]" by auto
  note t = deadline_second_is_quiet[where env = ?env and st = mixed_state and i = 1
      and st' = st', THEN conjunct1, THEN mp, OF h(1), THEN mp, OF h(2), THEN mp, OF h(3),
      THEN mp, OF c, THEN mp, OF r(1)]
  then have "tasks st' ! 1 = short_task ''t2'' ''43'' Processing 2 1500"
    by (simp add: mixed_state_def sample_state_def)
  with r have e1: "\<exists>st'. runFullCycle ?env mixed_state = Some st'
             \<and> tasks st' ! 1 = short_task ''t2'' ''43'' Processing 2 1500
             \<and> map status (tasks st') = [Failed_no_tx, Processing, Success]"
    by (intro exI[of _ st']) simp
  have c0: "checkOwnershipAfter unreachable_explorer ''0x12'' 1000 1500 sample_target empty_trace
       = Some (\<lparr>isProofConfirmed = False, txHash = None,
                  error = Some ''Invalid user EVM address''\<rparr>, empty_trace)"
    by code_simp
  have "\<exists>r s. processSingleTask ?env ?task mixed_state = Some (r, s)
             \<and> written_or_error ?env (length (statements mixed_state) + 2) 1 Expired
                  ''Deadline passed, proof not found.'' r s"
    using c0
    by (intro deadline_second_is_quiet[where env = ?env and st = mixed_state and i = 1
          and task = ?task and target = sample_target
          and proofResult = "\<lparr>isProofConfirmed = False, txHash = None,
                  error = Some ''Invalid user EVM address''\<rparr>" and ?net1.0 = empty_trace,
          THEN conjunct2, THEN conjunct2, THEN conjunct2, rule_format])
       (simp_all add: sample_env_def mixed_state_def sample_state_def short_task_def
          no_faults_def sample_decrypt_def sample_target_def)
  then obtain r2 s2 where
    "processSingleTask ?env ?task mixed_state = Some (r2, s2)"
    "written_or_error ?env (length (statements mixed_state) + 2) 1 Expired
                  ''Deadline passed, proof not found.'' r2 s2"
    by blast
  then have e2: "\<exists>st'. processSingleTask ?env ?task mixed_state = Some (Inr (), st')
             \<and> status (tasks st' ! 1) = Expired"
    by (intro exI[of _ s2])
       (simp add: written_or_error_def sample_env_def no_faults_def mixed_state_def
          sample_state_def)
  show ?thesis by (rule conjI[OF h(1) conjI[OF h(2) conjI[OF h(3) conjI[OF d conjI[OF e1 e2]]]]])
qed

text \<open>
  The claim as stated fails for a task the work phase selected earlier: selected at 1870,
  the task with deadline 1900 is written \<open>processing\<close>, its attempts are incremented, and
  at the reading that shows 1900 it is written \<open>expired\<close>.
\<close>

theorem work_phase_expires_at_the_deadline_second:
  "selectable (tasks fresh_state ! 0) \<and> check_deadline_utc (tasks fresh_state ! 0) = 1900
   \<and> clock deadline_env 2 = 1900
   \<and> map_option (\<lambda>s. (clock_reads s, row_summary 0 s))
       (processPendingTasks deadline_env fresh_state)
     = Some (3, Expired, 1, Some ''Deadline passed, proof not found.'')"
  by code_simp


subsection \<open>The re-entrancy flags\<close>

text \<open>
  Claim C10, as amended. The reap phase is a total function; entered with \<open>isCleaningUp\<close>
  clear it ends with the flag clear and leaves \<open>isProcessingCycle\<close> alone, whatever the
  statements of its body do, raising included. When the work phase is entered with
  \<open>isProcessingCycle\<close> clear and returns, it returns with the flag clear and leaves
  \<open>isCleaningUp\<close> alone, whether its body raised or not. Provided every ownership check on
  the explorer returns, the work phase returns from every state, and any number of cycles
  begun with both flags clear ends with both flags clear.
\<close>

theorem phases_reset_their_flags:
  "(\<not> isCleaningUp st \<longrightarrow>
      \<not> isCleaningUp (handleStuckOrExpiredTasks env st)
      \<and> isProcessingCycle (handleStuckOrExpiredTasks env st) = isProcessingCycle st)
   \<and> (\<not> isProcessingCycle st \<longrightarrow> processPendingTasks env st = Some st'
      \<longrightarrow> \<not> isProcessingCycle st' \<and> isCleaningUp st' = isCleaningUp st)
   \<and> ((\<forall>w a d t s. checkOwnershipAfter (chain env) w a d t s \<noteq> None)
      \<longrightarrow> processPendingTasks env st \<noteq> None
          \<and> (\<not> isCleaningUp st \<longrightarrow> \<not> isProcessingCycle st \<longrightarrow>
                (\<exists>s. runCycles env n st = Some s \<and> \<not> isCleaningUp s
                     \<and> \<not> isProcessingCycle s)))"
proof (intro conjI impI)
  assume "\<not> isCleaningUp st"
  then show "\<not> isCleaningUp (handleStuckOrExpiredTasks env st)"
    using handleStuckOrExpiredTasks_flags[of env st] by simp
  show "isProcessingCycle (handleStuckOrExpiredTasks env st) = isProcessingCycle st"
    using handleStuckOrExpiredTasks_flags[of env st] by simp
next
  assume a: "\<not> isProcessingCycle st" "processPendingTasks env st = Some st'"
  from processPendingTasks_flags[OF a(2)] a(1)
  show "\<not> isProcessingCycle st'" "isCleaningUp st' = isCleaningUp st" by simp_all
next
  assume h: "\<forall>w a d t s. checkOwnershipAfter (chain env) w a d t s \<noteq> None"
  then have h': "\<And>w a d t s. checkOwnershipAfter (chain env) w a d t s \<noteq> None" by blast
  show "processPendingTasks env st \<noteq> None" using h' by (rule processPendingTasks_returns)
  assume "\<not> isCleaningUp st" "\<not> isProcessingCycle st"
  with h' show "\<exists>s. runCycles env n st = Some s \<and> \<not> isCleaningUp s \<and> \<not> isProcessingCycle s"
    by (rule runCycles_flags)
qed

theorem phases_reset_their_flags_witness:
  "\<not> isCleaningUp mixed_state \<and> \<not> isProcessingCycle mixed_state
   \<and> \<not> isCleaningUp
         (handleStuckOrExpiredTasks (sample_env unreachable_explorer 1005 select_fails)
            mixed_state)
   \<and> (\<exists>st'. processPendingTasks (sample_env unreachable_explorer 1005 select_fails)
                mixed_state = Some st'
          \<and> statements st' = [SelectProcessable 1005 10] \<and> \<not> isProcessingCycle st')
   \<and> (\<exists>s. runCycles (sample_env unreachable_explorer 1005 select_fails) 1 mixed_state
              = Some s
          \<and> \<not> isCleaningUp s \<and> \<not> isProcessingCycle s)"
proof -
  let ?env = "sample_env unreachable_explorer 1005 select_fails"
  have f: "\<not> isCleaningUp mixed_state" "\<not> isProcessingCycle mixed_state"
    by (simp_all add: mixed_state_def sample_state_def)
  have h: "\<forall>w a d t s. checkOwnershipAfter (chain ?env) w a d t s \<noteq> None"
    by (simp add: sample_env_def checkOwnershipAfter_unreachable del: not_None_eq)
  have "map_option statements (processPendingTasks ?env mixed_state)
        = Some [SelectProcessable 1005 10]"
    by code_simp
  then obtain s1 where
    p: "processPendingTasks ?env mixed_state = Some s1"
       "statements s1 = [SelectProcessable 1005 10]"
    by auto
  note t = phases_reset_their_flags[where env = ?env and st = mixed_state and st' = s1
                                      and n = 1]
  have r: "\<not> isCleaningUp (handleStuckOrExpiredTasks ?env mixed_state)"
    using t f by simp
  have w: "\<not> isProcessingCycle s1" using t f p by simp
  have c: "\<exists>s. runCycles ?env 1 mixed_state = Some s \<and> \<not> isCleaningUp s
               \<and> \<not> isProcessingCycle s"
    using t f h by blast
  have e: "\<exists>st'. processPendingTasks ?env mixed_state = Some st'
          \<and> statements st' = [SelectProcessable 1005 10] \<and> \<not> isProcessingCycle st'"
    by (intro exI[of _ s1] conjI) (simp_all add: p w)
  show ?thesis by (rule conjI[OF f(1) conjI[OF f(2) conjI[OF r conjI[OF e c]]]])
qed

text \<open>
  The claim as stated fails for the work phase: nothing bounds the pages of a search, and
  with an explorer whose every page announces a next one the check of the first task never
  returns, so the phase neither ends nor clears \<open>isProcessingCycle\<close>.
\<close>

theorem endless_pagination_blocks_work_phase:
  "\<not> isProcessingCycle fresh_state
   \<and> processPendingTasks (sample_env endless_explorer 1005 no_faults) fresh_state = None"
proof -
  have n: "sample_user \<noteq> []" "sample_target \<noteq> []"
    by (simp_all add: sample_user_def sample_target_def)
  show ?thesis
    by (simp add: processPendingTasks_def workBody_def read_clock_def findProcessableTasks_def
          db_run_def getWallet_def processSingleTask_def updateProofTaskStatus_def
          updateProofTaskAttempts_def checkAndDecide_def fresh_state_def sample_state_def
          sample_task_def sample_env_def no_faults_def sample_decrypt_def Let_def n
          apply_status_def no_details_def checkOwnershipAfter_endless)
qed

end
